theory Spec2Isabelle
  imports Complex_Main "HOL-Library.Multiset"
begin

section \<open>The TwixT board of \<^verbatim>\<open>twixt.js\<close>\<close>

text \<open>
  The embedding follows the class \<^verbatim>\<open>Board\<close> and the helpers it uses, function by
  function. Coordinates are the integers the display layer produces with
  \<^verbatim>\<open>Math.round\<close>, so a peg coordinate is an \<open>int\<close>. The slopes and the intersection
  point computed by \<^verbatim>\<open>placeBarrier\<close> are JavaScript numbers; they are modelled as
  exact rationals. Every barrier the board stores has passed the distance check, so
  its run is \<open>\<plusminus>1\<close> or \<open>\<plusminus>2\<close>, its slope is one of \<open>\<plusminus>2\<close>, \<open>\<plusminus>1/2\<close>, and the
  quotients of the source differ from the exact ones by rounding far smaller than
  their distance to the integers they are compared with.
\<close>

subsection \<open>Helpers, players and pegs\<close>

definition between :: "rat \<Rightarrow> rat \<Rightarrow> rat \<Rightarrow> bool" where
  "between val end1 end2 \<longleftrightarrow> ((end1 < val \<and> val < end2) \<or> (end1 > val \<and> val > end2))"

datatype Player = R | B | X

datatype Peg = Peg (peg_x: int) (peg_y: int)

type_synonym Barrier = "Peg \<times> Peg"

definition asTuple :: "Peg \<Rightarrow> int \<times> int" where
  "asTuple p = (peg_x p, peg_y p)"

definition equals :: "Peg \<Rightarrow> Peg \<Rightarrow> bool" where
  "equals p q \<longleftrightarrow> peg_x p = peg_x q \<and> peg_y p = peg_y q"

definition gt :: "Peg \<Rightarrow> Peg \<Rightarrow> bool" where
  "gt p q = (if peg_x p = peg_x q then peg_y p > peg_y q else peg_x p > peg_x q)"

definition lt :: "Peg \<Rightarrow> Peg \<Rightarrow> bool" where
  "lt p q = (if peg_x p = peg_x q then peg_y p < peg_y q else peg_x p < peg_x q)"

subsection \<open>Keys of the occupancy map\<close>

text \<open>
  The map \<^verbatim>\<open>pegState\<close> is keyed by the template string \<^verbatim>\<open>`${x}_${y}`\<close>. An integer
  prints in decimal with a leading minus sign when negative; \<^verbatim>\<open>split("_")\<close> cuts a
  string at every underscore; \<^verbatim>\<open>parseInt\<close> reads an optional sign and the longest
  run of decimal digits, and is \<^verbatim>\<open>NaN\<close> (here \<open>None\<close>) when there is no digit.
\<close>

definition digitChar :: "nat \<Rightarrow> char" where
  "digitChar d = ''0123456789'' ! d"

definition isDigit :: "char \<Rightarrow> bool" where
  "isDigit c \<longleftrightarrow> c \<in> set ''0123456789''"

definition digitVal :: "char \<Rightarrow> nat" where
  "digitVal c = of_char c - 48"

function digitsOf :: "nat \<Rightarrow> string" where
  "digitsOf n = (if n < 10 then [digitChar n] else digitsOf (n div 10) @ [digitChar (n mod 10)])"
  by pat_completeness auto
termination
  by (relation "measure id") auto

declare digitsOf.simps [simp del]

definition numberToString :: "int \<Rightarrow> string" where
  "numberToString i = (if i < 0 then CHR ''-'' # digitsOf (nat (- i)) else digitsOf (nat i))"

definition stringifyPegTuple :: "int \<times> int \<Rightarrow> string" where
  "stringifyPegTuple t = numberToString (fst t) @ ''_'' @ numberToString (snd t)"

primrec splitOn :: "char \<Rightarrow> string \<Rightarrow> string list" where
  "splitOn sep [] = [[]]"
| "splitOn sep (c # cs) =
     (if c = sep then [] # splitOn sep cs
      else (c # hd (splitOn sep cs)) # tl (splitOn sep cs))"

definition parseDigits :: "string \<Rightarrow> int option" where
  "parseDigits s =
     (let ds = takeWhile isDigit s
      in if ds = [] then None
         else Some (int (foldl (\<lambda>n c. 10 * n + digitVal c) 0 ds)))"

definition parseInt :: "string option \<Rightarrow> int option" where
  "parseInt arg =
     (case arg of
        None \<Rightarrow> None
      | Some s \<Rightarrow>
         (case s of
            [] \<Rightarrow> None
          | c # cs \<Rightarrow>
             if c = CHR ''-'' then map_option uminus (parseDigits cs)
             else if c = CHR ''+'' then parseDigits cs
             else parseDigits s))"

definition item :: "'a list \<Rightarrow> nat \<Rightarrow> 'a option" where
  "item xs i = (if i < length xs then Some (xs ! i) else None)"

definition destringifyPegTuple :: "string \<Rightarrow> int option \<times> int option" where
  "destringifyPegTuple str =
     (let parts = splitOn CHR ''_'' str
      in (parseInt (item parts 0), parseInt (item parts 1)))"

subsection \<open>The board\<close>

record Board =
  pegState :: "string \<rightharpoonup> Player"
  redBarrierState :: "Barrier list"
  blackBarrierState :: "Barrier list"

definition setPeg :: "Board \<Rightarrow> int \<times> int \<Rightarrow> Player \<Rightarrow> Board" where
  "setPeg b tuple val = b\<lparr>pegState := (pegState b)(stringifyPegTuple tuple \<mapsto> val)\<rparr>"

text \<open>\<^verbatim>\<open>getPeg\<close> is \<^verbatim>\<open>undefined\<close> (here \<open>None\<close>) at a key the map does not hold.\<close>

definition getPeg :: "Board \<Rightarrow> int \<times> int \<Rightarrow> Player option" where
  "getPeg b tuple = pegState b (stringifyPegTuple tuple)"

text \<open>The constructor: the two nested loops set the 576 cells, column by column.\<close>

definition newBoard :: Board where
  "newBoard =
     foldl (\<lambda>b i. foldl (\<lambda>b j. setPeg b (i, j) X) b [1..24])
       \<lparr>pegState = Map.empty, redBarrierState = [], blackBarrierState = []\<rparr> [1..24]"

definition placePeg :: "Board \<Rightarrow> Peg \<Rightarrow> Player \<Rightarrow> bool \<times> Board" where
  "placePeg b peg color =
     (if color = R \<and> (peg_x peg = 1 \<or> peg_x peg = 24) then (False, b)
      else if color = B \<and> (peg_y peg = 1 \<or> peg_y peg = 24) then (False, b)
      else if getPeg b (asTuple peg) \<noteq> Some X then (False, b)
      else (True, setPeg b (asTuple peg) color))"

definition slope :: "Peg \<Rightarrow> Peg \<Rightarrow> rat" where
  "slope p q = of_int (peg_y q - peg_y p) / of_int (peg_x q - peg_x p)"

text \<open>
  The body of the loop of \<^verbatim>\<open>placeBarrier\<close> for one existing barrier
  \<open>(peg3, peg4)\<close>: true when it makes the method return false.
\<close>

definition blocks :: "Peg \<Rightarrow> Peg \<Rightarrow> Barrier \<Rightarrow> bool" where
  "blocks peg1 peg2 e =
     (let peg3 = fst e; peg4 = snd e;
          m1 = slope peg1 peg2;
          m3 = slope peg3 peg4
      in if m1 = m3 then
           (equals peg1 peg3 \<and> equals peg2 peg4) \<or> (equals peg1 peg4 \<and> equals peg2 peg3)
         else
           (let xi = (of_int (peg_x peg1) * m1 - of_int (peg_x peg3) * m3
                        + of_int (peg_y peg3) - of_int (peg_y peg1)) / (m1 - m3);
                yi = m1 * (xi - of_int (peg_x peg1)) + of_int (peg_y peg1)
            in between xi (of_int (peg_x peg1)) (of_int (peg_x peg2))
               \<and> between xi (of_int (peg_x peg3)) (of_int (peg_x peg4))
               \<and> between yi (of_int (peg_y peg1)) (of_int (peg_y peg2))
               \<and> between yi (of_int (peg_y peg3)) (of_int (peg_y peg4))))"

primrec blockedBy :: "Peg \<Rightarrow> Peg \<Rightarrow> Barrier list \<Rightarrow> bool" where
  "blockedBy peg1 peg2 [] = False"
| "blockedBy peg1 peg2 (e # es) = (if blocks peg1 peg2 e then True else blockedBy peg1 peg2 es)"

definition placeBarrier :: "Board \<Rightarrow> Peg \<Rightarrow> Peg \<Rightarrow> Player \<Rightarrow> bool \<times> Board" where
  "placeBarrier b peg1 peg2 color =
     (if (peg_y peg2 - peg_y peg1)\<^sup>2 + (peg_x peg2 - peg_x peg1)\<^sup>2 \<noteq> 5 then (False, b)
      else if getPeg b (asTuple peg1) \<noteq> Some color \<or> getPeg b (asTuple peg2) \<noteq> Some color
        then (False, b)
      else if blockedBy peg1 peg2 (redBarrierState b @ blackBarrierState b) then (False, b)
      else
        (let barrier = (if lt peg1 peg2 then (peg1, peg2) else (peg2, peg1))
         in if color = R then (True, b\<lparr>redBarrierState := redBarrierState b @ [barrier]\<rparr>)
            else if color = B then (True, b\<lparr>blackBarrierState := blackBarrierState b @ [barrier]\<rparr>)
            else (False, b)))"

definition removePeg :: "Board \<Rightarrow> Peg \<Rightarrow> Player \<Rightarrow> bool \<times> Board" where
  "removePeg b peg color =
     (if getPeg b (asTuple peg) = Some color then
        (let b' = (if color = R
                   then b\<lparr>redBarrierState :=
                          filter (\<lambda>val. \<not> equals peg (fst val) \<and> \<not> equals peg (snd val))
                            (redBarrierState b)\<rparr>
                   else b\<lparr>blackBarrierState :=
                          filter (\<lambda>val. \<not> equals peg (fst val) \<and> \<not> equals peg (snd val))
                            (blackBarrierState b)\<rparr>)
         in (True, setPeg b' (asTuple peg) X))
      else (False, b))"

text \<open>
  The loop of \<^verbatim>\<open>removeBarrier\<close>: \<open>spliceFirst\<close> walks the list and cuts out the first
  entry that matches, \<open>None\<close> when the loop ends without a match.
\<close>

primrec spliceFirst :: "Barrier \<Rightarrow> Barrier list \<Rightarrow> Barrier list option" where
  "spliceFirst barrier [] = None"
| "spliceFirst barrier (testBarrier # rest) =
     (if equals (fst barrier) (fst testBarrier) \<and> equals (snd barrier) (snd testBarrier)
      then Some rest
      else map_option (\<lambda>r. testBarrier # r) (spliceFirst barrier rest))"

definition removeBarrier :: "Board \<Rightarrow> Peg \<Rightarrow> Peg \<Rightarrow> Player \<Rightarrow> bool \<times> Board" where
  "removeBarrier b peg1 peg2 color =
     (let barrier = (if lt peg1 peg2 then (peg1, peg2) else (peg2, peg1))
      in if color = R then
           (case spliceFirst barrier (redBarrierState b) of
              Some bs \<Rightarrow> (True, b\<lparr>redBarrierState := bs\<rparr>)
            | None \<Rightarrow> (False, b))
         else
           (case spliceFirst barrier (blackBarrierState b) of
              Some bs \<Rightarrow> (True, b\<lparr>blackBarrierState := bs\<rparr>)
            | None \<Rightarrow> (False, b)))"

primrec collectAdjacent :: "Peg \<Rightarrow> Barrier list \<Rightarrow> Peg list" where
  "collectAdjacent peg [] = []"
| "collectAdjacent peg (e # es) =
     (if equals peg (fst e) then [snd e] else [])
     @ (if equals peg (snd e) then [fst e] else [])
     @ collectAdjacent peg es"

definition getAdjacentPegs :: "Board \<Rightarrow> Peg \<Rightarrow> Peg list" where
  "getAdjacentPegs b peg =
     (if getPeg b (asTuple peg) = Some B then collectAdjacent peg (blackBarrierState b)
      else if getPeg b (asTuple peg) = Some R then collectAdjacent peg (redBarrierState b)
      else [])"

subsection \<open>Win detection\<close>

text \<open>
  \<^verbatim>\<open>gameWon\<close> first collects the keys of the player's pegs in the first home row, in
  the order of the loop counter. Its \<^verbatim>\<open>while\<close> loop pops the last key of the queue
  and pushes the keys of the adjacent pegs at the end. A popped key is parsed back
  into a peg; were a coordinate \<^verbatim>\<open>NaN\<close>, the key of that peg would not be in the map
  and \<^verbatim>\<open>getAdjacentPegs\<close> would return the empty list.
\<close>

definition firstHomeRow :: "Board \<Rightarrow> Player \<Rightarrow> string list" where
  "firstHomeRow b player =
     (if player = R then
        map (\<lambda>i. stringifyPegTuple (i, 1)) (filter (\<lambda>i. getPeg b (i, 1) = Some R) [1..24])
      else if player = B then
        map (\<lambda>i. stringifyPegTuple (1, i)) (filter (\<lambda>i. getPeg b (1, i) = Some B) [1..24])
      else [])"

definition adjacentKeys :: "Board \<Rightarrow> string \<Rightarrow> string list" where
  "adjacentKeys b pegStr =
     (case destringifyPegTuple pegStr of
        (Some px, Some py) \<Rightarrow>
          map (\<lambda>adjacentPeg. stringifyPegTuple (asTuple adjacentPeg))
            (getAdjacentPegs b (Peg px py))
      | _ \<Rightarrow> [])"

text \<open>
  The keys of the endpoints of all barriers: every key the loop pushes is one of
  them, which bounds the number of keys it can mark and gives its termination.
\<close>

definition endpointKeys :: "Board \<Rightarrow> string set" where
  "endpointKeys b =
     (\<lambda>p. stringifyPegTuple (asTuple p)) `
       (fst ` set (redBarrierState b @ blackBarrierState b)
        \<union> snd ` set (redBarrierState b @ blackBarrierState b))"

function connectLoop :: "Board \<Rightarrow> string list \<Rightarrow> string list \<Rightarrow> string list" where
  "connectLoop b queue connectedPegs =
     (if queue = [] then connectedPegs
      else if last queue \<in> set connectedPegs then connectLoop b (butlast queue) connectedPegs
      else connectLoop b (butlast queue @ adjacentKeys b (last queue))
             (connectedPegs @ [last queue]))"
  by pat_completeness auto
termination
proof (relation "measures [\<lambda>(b, queue, connectedPegs).
                             card ((set queue \<union> endpointKeys b) - set connectedPegs),
                           \<lambda>(b, queue, connectedPegs). length queue]", goal_cases)
  case 1
  show ?case by simp
next
  case (2 b queue connectedPegs)
  have "set (butlast queue) \<subseteq> set queue"
    by (auto dest: in_set_butlastD)
  then have "card ((set (butlast queue) \<union> endpointKeys b) - set connectedPegs)
               \<le> card ((set queue \<union> endpointKeys b) - set connectedPegs)"
    by (intro card_mono) (auto simp: endpointKeys_def)
  moreover have "length (butlast queue) < length queue"
    using 2 by simp
  ultimately show ?case by auto
next
  case (3 b queue connectedPegs)
  define ends where
    "ends = fst ` set (redBarrierState b @ blackBarrierState b)
              \<union> snd ` set (redBarrierState b @ blackBarrierState b)"
  have coll: "set (collectAdjacent peg es) \<subseteq> fst ` set es \<union> snd ` set es" for peg es
    by (induction es) auto
  have adjs: "set (getAdjacentPegs b peg) \<subseteq> ends" for peg
    using coll [of peg "redBarrierState b"] coll [of peg "blackBarrierState b"]
    by (auto simp: getAdjacentPegs_def ends_def)
  have keys: "endpointKeys b = (\<lambda>p. stringifyPegTuple (asTuple p)) ` ends"
    by (simp add: endpointKeys_def ends_def)
  have adj: "set (adjacentKeys b s) \<subseteq> endpointKeys b" for s
  proof (cases "destringifyPegTuple s")
    case (Pair u v)
    show ?thesis
    proof (cases "\<exists>px py. u = Some px \<and> v = Some py")
      case True
      then obtain px py where "u = Some px" "v = Some py" by blast
      with Pair have "adjacentKeys b s
          = map (\<lambda>p. stringifyPegTuple (asTuple p)) (getAdjacentPegs b (Peg px py))"
        by (simp add: adjacentKeys_def)
      then show ?thesis using adjs [of "Peg px py"] keys by auto
    next
      case False
      with Pair have "adjacentKeys b s = []"
        by (cases u; cases v) (simp_all add: adjacentKeys_def)
      then show ?thesis by simp
    qed
  qed
  have fin: "finite ((set queue \<union> endpointKeys b) - set connectedPegs)"
    by (simp add: endpointKeys_def)
  have "last queue \<in> set queue"
    using 3 by simp
  moreover have "set (butlast queue) \<subseteq> set queue"
    by (auto dest: in_set_butlastD)
  ultimately have "(set (butlast queue @ adjacentKeys b (last queue)) \<union> endpointKeys b)
                     - set (connectedPegs @ [last queue])
                   \<subset> (set queue \<union> endpointKeys b) - set connectedPegs"
    using 3 adj [of "last queue"] by auto
  then have "card ((set (butlast queue @ adjacentKeys b (last queue)) \<union> endpointKeys b)
                     - set (connectedPegs @ [last queue]))
               < card ((set queue \<union> endpointKeys b) - set connectedPegs)"
    using fin by (rule psubset_card_mono [rotated])
  then show ?case by simp
qed

declare connectLoop.simps [simp del]

definition inOtherHomeRow :: "Player \<Rightarrow> string \<Rightarrow> bool" where
  "inOtherHomeRow player pegStr =
     (if player = R then snd (destringifyPegTuple pegStr) = Some 24
      else if player = B then fst (destringifyPegTuple pegStr) = Some 24
      else False)"

definition gameWon :: "Board \<Rightarrow> Player \<Rightarrow> bool" where
  "gameWon b player =
     list_ex (inOtherHomeRow player) (connectLoop b (firstHomeRow b player) [])"

subsection \<open>Reachable boards and the notions the properties are stated with\<close>

text \<open>
  A board is reachable when it is the fresh board or the result of a mutating
  operation, called with any peg and any player value, on a reachable board.
\<close>

inductive reachable :: "Board \<Rightarrow> bool" where
  fresh: "reachable newBoard"
| afterPlacePeg: "reachable b \<Longrightarrow> reachable (snd (placePeg b peg color))"
| afterPlaceBarrier: "reachable b \<Longrightarrow> reachable (snd (placeBarrier b peg1 peg2 color))"
| afterRemovePeg: "reachable b \<Longrightarrow> reachable (snd (removePeg b peg color))"
| afterRemoveBarrier: "reachable b \<Longrightarrow> reachable (snd (removeBarrier b peg1 peg2 color))"

definition barriersOf :: "Board \<Rightarrow> Player \<Rightarrow> Barrier list" where
  "barriersOf b c = (if c = R then redBarrierState b else blackBarrierState b)"

definition distance5 :: "Barrier \<Rightarrow> bool" where
  "distance5 e \<longleftrightarrow>
     (peg_x (snd e) - peg_x (fst e))\<^sup>2 + (peg_y (snd e) - peg_y (fst e))\<^sup>2 = 5"

definition ownedBy :: "Board \<Rightarrow> Player \<Rightarrow> Barrier \<Rightarrow> bool" where
  "ownedBy b c e \<longleftrightarrow>
     getPeg b (asTuple (fst e)) = Some c \<and> getPeg b (asTuple (snd e)) = Some c"

definition barrierInvariant :: "Board \<Rightarrow> bool" where
  "barrierInvariant b \<longleftrightarrow>
     (\<forall>e \<in> set (redBarrierState b). distance5 e \<and> ownedBy b R e)
     \<and> (\<forall>e \<in> set (blackBarrierState b). distance5 e \<and> ownedBy b B e)"

definition inGrid :: "int \<times> int \<Rightarrow> bool" where
  "inGrid t \<longleftrightarrow> 1 \<le> fst t \<and> fst t \<le> 24 \<and> 1 \<le> snd t \<and> snd t \<le> 24"

text \<open>The lines a player may not place pegs on: the opponent's home rows.\<close>

definition forbiddenLine :: "Player \<Rightarrow> Peg \<Rightarrow> bool" where
  "forbiddenLine c p \<longleftrightarrow>
     (c = R \<and> (peg_x p = 1 \<or> peg_x p = 24)) \<or> (c = B \<and> (peg_y p = 1 \<or> peg_y p = 24))"

text \<open>A path of pegs of one player, consecutive pegs joined by that player's barriers.\<close>

definition joinedBy :: "Barrier list \<Rightarrow> Peg \<Rightarrow> Peg \<Rightarrow> bool" where
  "joinedBy bs p q \<longleftrightarrow> (p, q) \<in> set bs \<or> (q, p) \<in> set bs"

fun chain :: "Barrier list \<Rightarrow> Peg list \<Rightarrow> bool" where
  "chain bs [] = True"
| "chain bs [p] = True"
| "chain bs (p # q # ps) = (joinedBy bs p q \<and> chain bs (q # ps))"

definition winningPath :: "Board \<Rightarrow> Player \<Rightarrow> Peg list \<Rightarrow> bool" where
  "winningPath b c ps \<longleftrightarrow>
     ps \<noteq> []
     \<and> list_all (\<lambda>p. getPeg b (asTuple p) = Some c) ps
     \<and> chain (barriersOf b c) ps
     \<and> (if c = R then peg_y (hd ps) = 1 \<and> peg_y (last ps) = 24
        else peg_x (hd ps) = 1 \<and> peg_x (last ps) = 24)"

text \<open>The two ways in which an existing barrier rules a proposed one out.\<close>

definition exactMatch :: "Peg \<Rightarrow> Peg \<Rightarrow> Barrier \<Rightarrow> bool" where
  "exactMatch peg1 peg2 e \<longleftrightarrow> (peg1 = fst e \<and> peg2 = snd e) \<or> (peg1 = snd e \<and> peg2 = fst e)"

definition onLine :: "Peg \<Rightarrow> Peg \<Rightarrow> rat \<times> rat \<Rightarrow> bool" where
  "onLine p q pt \<longleftrightarrow>
     (snd pt - of_int (peg_y p)) * of_int (peg_x q - peg_x p)
       = of_int (peg_y q - peg_y p) * (fst pt - of_int (peg_x p))"

definition strictlyInside :: "Peg \<Rightarrow> Peg \<Rightarrow> rat \<times> rat \<Rightarrow> bool" where
  "strictlyInside p q pt \<longleftrightarrow>
     between (fst pt) (of_int (peg_x p)) (of_int (peg_x q))
     \<and> between (snd pt) (of_int (peg_y p)) (of_int (peg_y q))"

definition crossesStrictly :: "Peg \<Rightarrow> Peg \<Rightarrow> Barrier \<Rightarrow> bool" where
  "crossesStrictly peg1 peg2 e \<longleftrightarrow>
     (\<exists>pt. onLine peg1 peg2 pt \<and> onLine (fst e) (snd e) pt
           \<and> strictlyInside peg1 peg2 pt \<and> strictlyInside (fst e) (snd e) pt)"

definition sharesEndpoint :: "Peg \<Rightarrow> Peg \<Rightarrow> Barrier \<Rightarrow> bool" where
  "sharesEndpoint peg1 peg2 e \<longleftrightarrow>
     peg1 = fst e \<or> peg1 = snd e \<or> peg2 = fst e \<or> peg2 = snd e"

text \<open>The barriers at a peg and their far ends, for the adjacency query.\<close>

definition hasEndpoint :: "Peg \<Rightarrow> Barrier \<Rightarrow> bool" where
  "hasEndpoint peg e \<longleftrightarrow> fst e = peg \<or> snd e = peg"

definition oppositeEndpoint :: "Peg \<Rightarrow> Barrier \<Rightarrow> Peg" where
  "oppositeEndpoint peg e = (if fst e = peg then snd e else fst e)"

text \<open>
  For the win detection: the key of a peg, the coordinate that tells a player's home
  rows apart, one step of the traversal on keys, and one step along a barrier on pegs.
\<close>

definition pegKey :: "Peg \<Rightarrow> string" where
  "pegKey p = stringifyPegTuple (asTuple p)"

definition homeCoord :: "Player \<Rightarrow> Peg \<Rightarrow> int" where
  "homeCoord c p = (if c = R then peg_y p else peg_x p)"

definition pegStep :: "Board \<Rightarrow> Player \<Rightarrow> (Peg \<times> Peg) set" where
  "pegStep b c = {(p, q). joinedBy (barriersOf b c) p q}"

definition keyStep :: "Board \<Rightarrow> (string \<times> string) set" where
  "keyStep b = {(s, t). t \<in> set (adjacentKeys b s)}"

subsection \<open>Example boards\<close>

text \<open>Red pegs at (2,2) and (3,4), without and with the barrier between them.\<close>

definition boardWithPegs :: Board where
  "boardWithPegs = snd (placePeg (snd (placePeg newBoard (Peg 2 2) R)) (Peg 3 4) R)"

definition boardWithBarrier :: Board where
  "boardWithBarrier = snd (placeBarrier boardWithPegs (Peg 2 2) (Peg 3 4) R)"

text \<open>The same with two more Red pegs, at (2,4) and (4,3).\<close>

definition boardCrossing :: Board where
  "boardCrossing = snd (placePeg (snd (placePeg boardWithBarrier (Peg 2 4) R)) (Peg 4 3) R)"

text \<open>
  A board Red has won: thirteen Red pegs from row 1 to row 24, placed one after the
  other, then the twelve barriers between consecutive pegs.
\<close>

definition wonPegs :: "Peg list" where
  "wonPegs = [Peg 2 1, Peg 3 3, Peg 4 5, Peg 5 7, Peg 6 9, Peg 7 11, Peg 8 13, Peg 9 15,
              Peg 10 17, Peg 11 19, Peg 12 21, Peg 13 23, Peg 15 24]"

definition wonPegsBoard :: Board where
  "wonPegsBoard = foldl (\<lambda>b p. snd (placePeg b p R)) newBoard wonPegs"

definition wonBoard :: Board where
  "wonBoard =
     foldl (\<lambda>b e. snd (placeBarrier b (fst e) (snd e) R)) wonPegsBoard
       (zip wonPegs (tl wonPegs))"

section \<open>Properties\<close>

subsection \<open>The key of a cell determines the cell\<close>

lemma lt10_cases:
  "d < 10 \<Longrightarrow>
     d = 0 \<or> d = 1 \<or> d = 2 \<or> d = 3 \<or> d = 4 \<or> d = 5 \<or> d = 6 \<or> d = 7 \<or> d = 8 \<or> d = (9::nat)"
  by arith

lemma digitChar_props:
  assumes "d < 10"
  shows "isDigit (digitChar d)" and "digitVal (digitChar d) = d"
    and "digitChar d \<noteq> CHR ''_''" and "digitChar d \<noteq> CHR ''-''" and "digitChar d \<noteq> CHR ''+''"
  using lt10_cases [OF assms]
  by (auto simp: digitChar_def isDigit_def digitVal_def)

lemma digitsOf_digits: "\<forall>c \<in> set (digitsOf n). isDigit c"
proof (induction n rule: digitsOf.induct)
  case (1 n)
  show ?case
  proof (cases "n < 10")
    case True
    then show ?thesis by (subst digitsOf.simps) (simp add: digitChar_props)
  next
    case False
    with 1 show ?thesis by (subst digitsOf.simps) (simp add: digitChar_props)
  qed
qed

lemma digitsOf_nonempty: "digitsOf n \<noteq> []"
  by (subst digitsOf.simps) simp

lemma digitsOf_value: "foldl (\<lambda>n c. 10 * n + digitVal c) 0 (digitsOf n) = n"
proof (induction n rule: digitsOf.induct)
  case (1 n)
  show ?case
  proof (cases "n < 10")
    case True
    then show ?thesis by (subst digitsOf.simps) (simp add: digitChar_props)
  next
    case False
    with 1 show ?thesis by (subst digitsOf.simps) (simp add: digitChar_props)
  qed
qed

lemma isDigit_not_special: "isDigit c \<Longrightarrow> c \<noteq> CHR ''_'' \<and> c \<noteq> CHR ''-'' \<and> c \<noteq> CHR ''+''"
  by (auto simp: isDigit_def)

lemma parseDigits_digitsOf: "parseDigits (digitsOf n) = Some (int n)"
proof -
  have "takeWhile isDigit (digitsOf n) = digitsOf n"
    using digitsOf_digits by simp
  then show ?thesis
    by (simp add: parseDigits_def Let_def digitsOf_nonempty digitsOf_value del: takeWhile_eq_all_conv)
qed

lemma parseInt_numberToString: "parseInt (Some (numberToString i)) = Some i"
proof (cases "i < 0")
  case True
  then show ?thesis
    by (simp add: parseInt_def numberToString_def parseDigits_digitsOf)
next
  case False
  obtain c cs where cs: "digitsOf (nat i) = c # cs"
    using digitsOf_nonempty [of "nat i"] by (cases "digitsOf (nat i)") auto
  have "isDigit c" using digitsOf_digits [of "nat i"] cs by simp
  then have "c \<noteq> CHR ''-''" "c \<noteq> CHR ''+''" using isDigit_not_special by auto
  with False cs parseDigits_digitsOf [of "nat i"] show ?thesis
    by (simp add: parseInt_def numberToString_def)
qed

lemma numberToString_no_sep: "CHR ''_'' \<notin> set (numberToString i)"
  using digitsOf_digits isDigit_not_special by (auto simp: numberToString_def)

lemma splitOn_no_sep: "sep \<notin> set u \<Longrightarrow> splitOn sep u = [u]"
  by (induction u) auto

lemma splitOn_first: "sep \<notin> set u \<Longrightarrow> splitOn sep (u @ sep # v) = u # splitOn sep v"
  by (induction u) auto

lemma destringify_stringify [simp]:
  "destringifyPegTuple (stringifyPegTuple (a, b)) = (Some a, Some b)"
  by (simp add: destringifyPegTuple_def stringifyPegTuple_def splitOn_first splitOn_no_sep
      numberToString_no_sep item_def parseInt_numberToString)

lemma stringify_eq_iff [simp]: "stringifyPegTuple s = stringifyPegTuple t \<longleftrightarrow> s = t"
proof
  assume same: "stringifyPegTuple s = stringifyPegTuple t"
  obtain a c where s: "s = (a, c)" by (cases s)
  obtain a' c' where t: "t = (a', c')" by (cases t)
  from same have "destringifyPegTuple (stringifyPegTuple (a, c))
                    = destringifyPegTuple (stringifyPegTuple (a', c'))"
    by (simp add: s t)
  then show "s = t" by (simp add: s t)
qed simp

lemma equals_iff [simp]: "equals p q \<longleftrightarrow> p = q"
  by (cases p; cases q) (simp add: equals_def)

lemma asTuple_eq_iff [simp]: "asTuple p = asTuple q \<longleftrightarrow> p = q"
  by (cases p; cases q) (simp add: asTuple_def)

lemma asTuple_Peg [simp]: "asTuple (Peg a c) = (a, c)"
  by (simp add: asTuple_def)

lemma getPeg_setPeg [simp]: "getPeg (setPeg b t v) u = (if u = t then Some v else getPeg b u)"
  by (simp add: getPeg_def setPeg_def)

lemma barriers_setPeg [simp]:
  "redBarrierState (setPeg b t v) = redBarrierState b"
  "blackBarrierState (setPeg b t v) = blackBarrierState b"
  by (simp_all add: setPeg_def)

lemma getPeg_barrier_update [simp]:
  "getPeg (b\<lparr>redBarrierState := rs\<rparr>) t = getPeg b t"
  "getPeg (b\<lparr>blackBarrierState := bs\<rparr>) t = getPeg b t"
  by (simp_all add: getPeg_def)

subsection \<open>The fresh board and the results of the operations\<close>

lemma fold_row:
  "getPeg (foldl (\<lambda>b j. setPeg b (i, j) X) b js) t
     = (if fst t = i \<and> snd t \<in> set js then Some X else getPeg b t)"
  "redBarrierState (foldl (\<lambda>b j. setPeg b (i, j) X) b js) = redBarrierState b"
  "blackBarrierState (foldl (\<lambda>b j. setPeg b (i, j) X) b js) = blackBarrierState b"
  by (induction js arbitrary: b) (auto simp: prod_eq_iff)

lemma fold_grid:
  "getPeg (foldl (\<lambda>b i. foldl (\<lambda>b j. setPeg b (i, j) X) b js) b is) t
     = (if fst t \<in> set is \<and> snd t \<in> set js then Some X else getPeg b t)"
  "redBarrierState (foldl (\<lambda>b i. foldl (\<lambda>b j. setPeg b (i, j) X) b js) b is) = redBarrierState b"
  "blackBarrierState (foldl (\<lambda>b i. foldl (\<lambda>b j. setPeg b (i, j) X) b js) b is) = blackBarrierState b"
  by (induction "is" arbitrary: b) (auto simp: fold_row)

lemma getPeg_newBoard [simp]: "getPeg newBoard t = (if inGrid t then Some X else None)"
proof -
  have "getPeg \<lparr>pegState = Map.empty, redBarrierState = [], blackBarrierState = []\<rparr> t = None"
    by (simp add: getPeg_def)
  then show ?thesis
    unfolding newBoard_def fold_grid by (simp add: inGrid_def)
qed

lemma barriers_newBoard [simp]:
  "redBarrierState newBoard = []" "blackBarrierState newBoard = []"
  unfolding newBoard_def fold_grid by simp_all

lemma setPeg_same: "getPeg b t = Some v \<Longrightarrow> setPeg b t v = b"
  by (simp add: getPeg_def setPeg_def map_upd_triv)

lemma placePeg_fst: "fst (placePeg b peg color)
    \<longleftrightarrow> getPeg b (asTuple peg) = Some X \<and> \<not> forbiddenLine color peg"
  by (simp add: placePeg_def forbiddenLine_def)

lemma placePeg_snd:
  "snd (placePeg b peg color)
     = (if fst (placePeg b peg color) then setPeg b (asTuple peg) color else b)"
  by (simp add: placePeg_def)

lemma placeBarrier_snd:
  "snd (placeBarrier b peg1 peg2 color)
     = (if fst (placeBarrier b peg1 peg2 color)
        then (if color = R
              then b\<lparr>redBarrierState := redBarrierState b
                       @ [if lt peg1 peg2 then (peg1, peg2) else (peg2, peg1)]\<rparr>
              else b\<lparr>blackBarrierState := blackBarrierState b
                       @ [if lt peg1 peg2 then (peg1, peg2) else (peg2, peg1)]\<rparr>)
        else b)"
  by (simp add: placeBarrier_def Let_def)

lemma removePeg_snd:
  "snd (removePeg b peg color)
     = (if fst (removePeg b peg color)
        then setPeg (if color = R
                     then b\<lparr>redBarrierState :=
                            filter (\<lambda>e. \<not> hasEndpoint peg e) (redBarrierState b)\<rparr>
                     else b\<lparr>blackBarrierState :=
                            filter (\<lambda>e. \<not> hasEndpoint peg e) (blackBarrierState b)\<rparr>)
               (asTuple peg) X
        else b)"
  by (simp add: removePeg_def Let_def hasEndpoint_def eq_commute [of peg])

lemma removeBarrier_fst:
  "fst (removeBarrier b peg1 peg2 color)
     \<longleftrightarrow> spliceFirst (if lt peg1 peg2 then (peg1, peg2) else (peg2, peg1))
           (barriersOf b color) \<noteq> None"
  by (simp add: removeBarrier_def Let_def barriersOf_def split: option.splits)

lemma removeBarrier_snd:
  "snd (removeBarrier b peg1 peg2 color)
     = (case spliceFirst (if lt peg1 peg2 then (peg1, peg2) else (peg2, peg1))
               (barriersOf b color) of
          None \<Rightarrow> b
        | Some bs \<Rightarrow> if color = R then b\<lparr>redBarrierState := bs\<rparr>
                     else b\<lparr>blackBarrierState := bs\<rparr>)"
  by (simp add: removeBarrier_def Let_def barriersOf_def split: option.splits)

lemma placeBarrier_fst:
  "fst (placeBarrier b peg1 peg2 color)
     \<longleftrightarrow> (peg_y peg2 - peg_y peg1)\<^sup>2 + (peg_x peg2 - peg_x peg1)\<^sup>2 = 5
         \<and> getPeg b (asTuple peg1) = Some color \<and> getPeg b (asTuple peg2) = Some color
         \<and> \<not> blockedBy peg1 peg2 (redBarrierState b @ blackBarrierState b)
         \<and> (color = R \<or> color = B)"
  by (auto simp: placeBarrier_def Let_def)

lemma removePeg_fst: "fst (removePeg b peg color) \<longleftrightarrow> getPeg b (asTuple peg) = Some color"
  by (simp add: removePeg_def Let_def)

lemma blocks_self: "blocks peg1 peg2 (peg1, peg2)"
  by (simp add: blocks_def)

lemma slope_swap: "slope q p = slope p q"
proof -
  have rise: "(of_int (peg_y p - peg_y q) :: rat) = - of_int (peg_y q - peg_y p)"
    by simp
  have run: "(of_int (peg_x p - peg_x q) :: rat) = - of_int (peg_x q - peg_x p)"
    by simp
  show ?thesis unfolding slope_def rise run by (rule minus_divide_divide)
qed

lemma blocks_swapped: "blocks peg1 peg2 (peg2, peg1)"
  by (simp add: blocks_def slope_swap [of peg1 peg2])

lemma blockedBy_iff: "blockedBy peg1 peg2 es \<longleftrightarrow> (\<exists>e \<in> set es. blocks peg1 peg2 e)"
  by (induction es) auto

subsection \<open>Placing a peg\<close>

text \<open>
  Claim C3. For a peg and a colour Red or Black, \<^verbatim>\<open>placePeg\<close> returns true exactly when
  the cell holds \<open>X\<close> and the peg is not on a line forbidden to the mover. On success
  the map differs from the old one at the key of that cell only, which now holds the
  colour, both barrier lists are as before, and a second \<^verbatim>\<open>placePeg\<close> at the same
  peg returns false whatever the colour. On failure the board is unchanged. The
  statement holds for every peg, in the grid or not.
\<close>

theorem placePeg_spec:
  "color = R \<or> color = B \<Longrightarrow>
     (fst (placePeg b peg color)
        \<longleftrightarrow> getPeg b (asTuple peg) = Some X \<and> \<not> forbiddenLine color peg)
     \<and> (fst (placePeg b peg color) \<longrightarrow>
          pegState (snd (placePeg b peg color))
            = (pegState b)(stringifyPegTuple (asTuple peg) \<mapsto> color)
          \<and> getPeg (snd (placePeg b peg color)) (asTuple peg) = Some color
          \<and> (\<forall>t. t \<noteq> asTuple peg \<longrightarrow> getPeg (snd (placePeg b peg color)) t = getPeg b t)
          \<and> redBarrierState (snd (placePeg b peg color)) = redBarrierState b
          \<and> blackBarrierState (snd (placePeg b peg color)) = blackBarrierState b
          \<and> (\<forall>c. \<not> fst (placePeg (snd (placePeg b peg color)) peg c)))
     \<and> (\<not> fst (placePeg b peg color) \<longrightarrow> snd (placePeg b peg color) = b)"
proof -
  assume col: "color = R \<or> color = B"
  have "pegState (setPeg b (asTuple peg) color)
          = (pegState b)(stringifyPegTuple (asTuple peg) \<mapsto> color)"
    by (simp add: setPeg_def)
  moreover have "\<not> fst (placePeg (setPeg b (asTuple peg) color) peg c)" for c
    using col by (auto simp: placePeg_fst)
  ultimately show ?thesis
    by (simp add: placePeg_snd) (simp add: placePeg_fst)
qed

theorem placePeg_spec_witness:
  "fst (placePeg newBoard (Peg 2 2) R)
   \<and> getPeg (snd (placePeg newBoard (Peg 2 2) R)) (2, 2) = Some R
   \<and> getPeg (snd (placePeg newBoard (Peg 2 2) R)) (2, 3) = getPeg newBoard (2, 3)
   \<and> \<not> fst (placePeg (snd (placePeg newBoard (Peg 2 2) R)) (Peg 2 2) B)
   \<and> \<not> fst (placePeg newBoard (Peg 2 1) B)
   \<and> snd (placePeg newBoard (Peg 2 1) B) = newBoard"
  using placePeg_spec [of R newBoard "Peg 2 2"] placePeg_spec [of B newBoard "Peg 2 1"]
  by (simp add: forbiddenLine_def inGrid_def)

text \<open>
  Claim C10. When the cell of a peg holds \<open>X\<close>, \<^verbatim>\<open>placePeg\<close> called with the player
  value \<open>X\<close> returns true and the board it leaves is the board it was given.
\<close>

theorem placePeg_None_noop:
  "getPeg b (asTuple peg) = Some X \<Longrightarrow> placePeg b peg X = (True, b)"
  by (simp add: placePeg_def setPeg_same)

theorem placePeg_None_noop_witness:
  "getPeg newBoard (asTuple (Peg 5 5)) = Some X \<and> placePeg newBoard (Peg 5 5) X = (True, newBoard)"
  using placePeg_None_noop [of newBoard "Peg 5 5"] by (simp add: inGrid_def)

subsection \<open>Failed operations\<close>

text \<open>
  Claim C7. Whenever \<^verbatim>\<open>placePeg\<close>, \<^verbatim>\<open>placeBarrier\<close>, \<^verbatim>\<open>removePeg\<close> or
  \<^verbatim>\<open>removeBarrier\<close> returns false, the board (occupancy map and both barrier lists)
  is the one before the call.
\<close>

theorem failure_unchanged:
  "(\<not> fst (placePeg b peg color) \<longrightarrow> snd (placePeg b peg color) = b)
   \<and> (\<not> fst (placeBarrier b peg1 peg2 color) \<longrightarrow> snd (placeBarrier b peg1 peg2 color) = b)
   \<and> (\<not> fst (removePeg b peg color) \<longrightarrow> snd (removePeg b peg color) = b)
   \<and> (\<not> fst (removeBarrier b peg1 peg2 color) \<longrightarrow> snd (removeBarrier b peg1 peg2 color) = b)"
  by (simp add: placePeg_snd placeBarrier_snd removePeg_snd removeBarrier_snd removeBarrier_fst)

theorem failure_unchanged_witness:
  "\<not> fst (placePeg newBoard (Peg 1 5) R)
   \<and> snd (placePeg newBoard (Peg 1 5) R) = newBoard
   \<and> \<not> fst (placeBarrier newBoard (Peg 2 2) (Peg 3 4) R)
   \<and> snd (placeBarrier newBoard (Peg 2 2) (Peg 3 4) R) = newBoard
   \<and> \<not> fst (removePeg newBoard (Peg 1 5) R)
   \<and> snd (removePeg newBoard (Peg 1 5) R) = newBoard
   \<and> \<not> fst (removeBarrier newBoard (Peg 2 2) (Peg 3 4) R)
   \<and> snd (removeBarrier newBoard (Peg 2 2) (Peg 3 4) R) = newBoard"
  using failure_unchanged [of newBoard "Peg 1 5" R "Peg 2 2" "Peg 3 4"]
  by (simp add: placePeg_fst placeBarrier_fst removePeg_fst removeBarrier_fst
      forbiddenLine_def inGrid_def barriersOf_def)

subsection \<open>Placing a barrier: distance and ownership\<close>

text \<open>
  Claim C6. \<^verbatim>\<open>placeBarrier\<close> returns false and leaves the board unchanged when the
  squared distance of the two pegs is not 5 or when one of the two cells does not hold
  the colour. On a board without barriers where (2,2) and (3,4) hold Red pegs,
  placing the Red barrier (2,2)-(3,4) succeeds; placing (2,2)-(4,4) fails on every
  board for every colour.
\<close>

theorem placeBarrier_rejects:
  "((peg_x pegB - peg_x pegA)\<^sup>2 + (peg_y pegB - peg_y pegA)\<^sup>2 \<noteq> 5
      \<or> getPeg b (asTuple pegA) \<noteq> Some color \<or> getPeg b (asTuple pegB) \<noteq> Some color
    \<longrightarrow> placeBarrier b pegA pegB color = (False, b))
   \<and> (getPeg b (2, 2) = Some R \<and> getPeg b (3, 4) = Some R
        \<and> redBarrierState b = [] \<and> blackBarrierState b = []
      \<longrightarrow> fst (placeBarrier b (Peg 2 2) (Peg 3 4) R))
   \<and> placeBarrier b (Peg 2 2) (Peg 4 4) color = (False, b)"
  by (auto simp: placeBarrier_def)

theorem placeBarrier_rejects_witness:
  "getPeg newBoard (asTuple (Peg 2 2)) \<noteq> Some R
   \<and> placeBarrier newBoard (Peg 2 2) (Peg 3 4) R = (False, newBoard)
   \<and> fst (placeBarrier (snd (placePeg (snd (placePeg newBoard (Peg 2 2) R)) (Peg 3 4) R))
            (Peg 2 2) (Peg 3 4) R)"
  using placeBarrier_rejects [of "Peg 3 4" "Peg 2 2" newBoard R]
    placeBarrier_rejects [of "Peg 3 4" "Peg 2 2"
      "snd (placePeg (snd (placePeg newBoard (Peg 2 2) R)) (Peg 3 4) R)" R]
  by (simp add: placePeg_snd placePeg_fst forbiddenLine_def inGrid_def)

subsection \<open>The example boards\<close>

lemma boardWithPegs_simps [simp]:
  "getPeg boardWithPegs t
     = (if t = (3, 4) \<or> t = (2, 2) then Some R else if inGrid t then Some X else None)"
  "redBarrierState boardWithPegs = []"
  "blackBarrierState boardWithPegs = []"
  by (simp_all add: boardWithPegs_def placePeg_snd placePeg_fst forbiddenLine_def inGrid_def)

lemma boardWithBarrier_simps [simp]:
  "getPeg boardWithBarrier t
     = (if t = (3, 4) \<or> t = (2, 2) then Some R else if inGrid t then Some X else None)"
  "redBarrierState boardWithBarrier = [(Peg 2 2, Peg 3 4)]"
  "blackBarrierState boardWithBarrier = []"
  by (simp_all add: boardWithBarrier_def placeBarrier_snd placeBarrier_fst lt_def)

lemma boardCrossing_simps [simp]:
  "getPeg boardCrossing t
     = (if t = (4, 3) \<or> t = (2, 4) \<or> t = (3, 4) \<or> t = (2, 2) then Some R
        else if inGrid t then Some X else None)"
  "redBarrierState boardCrossing = [(Peg 2 2, Peg 3 4)]"
  "blackBarrierState boardCrossing = []"
  by (simp_all add: boardCrossing_def placePeg_snd placePeg_fst forbiddenLine_def inGrid_def)

lemma reachable_examples:
  "reachable boardWithPegs" "reachable boardWithBarrier" "reachable boardCrossing"
  unfolding boardWithPegs_def boardWithBarrier_def boardCrossing_def
  by (intro reachable.intros)+

subsection \<open>Removing a peg\<close>

lemma collectAdjacent_none: "\<forall>e \<in> set es. \<not> hasEndpoint peg e \<Longrightarrow> collectAdjacent peg es = []"
  by (induction es) (auto simp: hasEndpoint_def)

lemma getAdjacentPegs_empty_cell:
  "getPeg b (asTuple peg) \<noteq> Some R \<Longrightarrow> getPeg b (asTuple peg) \<noteq> Some B \<Longrightarrow> getAdjacentPegs b peg = []"
  by (simp add: getAdjacentPegs_def)

text \<open>
  Claim C5. For a colour Red or Black, \<^verbatim>\<open>removePeg\<close> returns false and changes nothing
  unless the cell holds the colour. When it does, the call returns true, the colour's
  barrier list keeps exactly the barriers that do not have the peg as an endpoint (in
  their order), the other player's list is as before, the cell holds \<open>X\<close>, every
  other cell is as before, and \<^verbatim>\<open>getAdjacentPegs\<close> at the peg is then empty.
\<close>

theorem removePeg_spec:
  "color = R \<or> color = B \<Longrightarrow>
     (getPeg b (asTuple peg) \<noteq> Some color \<longrightarrow> removePeg b peg color = (False, b))
     \<and> (getPeg b (asTuple peg) = Some color \<longrightarrow>
          fst (removePeg b peg color)
          \<and> barriersOf (snd (removePeg b peg color)) color
              = filter (\<lambda>e. \<not> hasEndpoint peg e) (barriersOf b color)
          \<and> (color = R \<longrightarrow> blackBarrierState (snd (removePeg b peg color)) = blackBarrierState b)
          \<and> (color = B \<longrightarrow> redBarrierState (snd (removePeg b peg color)) = redBarrierState b)
          \<and> getPeg (snd (removePeg b peg color)) (asTuple peg) = Some X
          \<and> (\<forall>t. t \<noteq> asTuple peg \<longrightarrow> getPeg (snd (removePeg b peg color)) t = getPeg b t)
          \<and> getAdjacentPegs (snd (removePeg b peg color)) peg = [])"
proof -
  assume col: "color = R \<or> color = B"
  have "removePeg b peg color = (False, b)" if "getPeg b (asTuple peg) \<noteq> Some color"
    using that by (simp add: removePeg_def)
  moreover have "getAdjacentPegs (snd (removePeg b peg color)) peg = []"
    if "getPeg b (asTuple peg) = Some color"
    using that by (intro getAdjacentPegs_empty_cell) (simp_all add: removePeg_snd removePeg_fst)
  ultimately show ?thesis
    using col by (auto simp: removePeg_snd removePeg_fst barriersOf_def)
qed

theorem removePeg_spec_witness:
  "getPeg boardWithBarrier (asTuple (Peg 2 2)) = Some R
   \<and> fst (removePeg boardWithBarrier (Peg 2 2) R)
   \<and> barriersOf (snd (removePeg boardWithBarrier (Peg 2 2) R)) R = []
   \<and> getPeg (snd (removePeg boardWithBarrier (Peg 2 2) R)) (2, 2) = Some X
   \<and> getPeg (snd (removePeg boardWithBarrier (Peg 2 2) R)) (3, 4) = Some R
   \<and> getAdjacentPegs (snd (removePeg boardWithBarrier (Peg 2 2) R)) (Peg 2 2) = []
   \<and> getPeg boardWithBarrier (asTuple (Peg 2 2)) \<noteq> Some B
   \<and> removePeg boardWithBarrier (Peg 2 2) B = (False, boardWithBarrier)"
  using removePeg_spec [of R boardWithBarrier "Peg 2 2"] removePeg_spec [of B boardWithBarrier "Peg 2 2"]
  by (simp add: barriersOf_def hasEndpoint_def)

subsection \<open>Removing the barrier just placed\<close>

lemma spliceFirst_last:
  "\<forall>e \<in> set es. e \<noteq> barrier \<Longrightarrow> spliceFirst barrier (es @ [barrier]) = Some es"
  by (induction es) (auto simp: prod_eq_iff)

lemma lt_total: "p \<noteq> q \<Longrightarrow> lt q p \<longleftrightarrow> \<not> lt p q"
  by (cases p; cases q) (auto simp: lt_def)

lemma not_blocked_fresh:
  assumes "\<not> blockedBy peg1 peg2 es"
  shows "(peg1, peg2) \<notin> set es" and "(peg2, peg1) \<notin> set es"
  using assms blocks_self blocks_swapped by (auto simp: blockedBy_iff)

text \<open>
  Claim C8. When \<^verbatim>\<open>placeBarrier\<close> returns true, \<^verbatim>\<open>removeBarrier\<close> with the same
  colour and the same two pegs, in the same or in the swapped order, returns true and
  the board is again the board before the placement: the colour's barrier list, the
  other list and the occupancy map.
\<close>

theorem place_then_remove:
  "fst (placeBarrier b pegA pegB color) \<Longrightarrow>
     removeBarrier (snd (placeBarrier b pegA pegB color)) pegA pegB color = (True, b)
     \<and> removeBarrier (snd (placeBarrier b pegA pegB color)) pegB pegA color = (True, b)"
proof -
  assume ok: "fst (placeBarrier b pegA pegB color)"
  define barrier where "barrier = (if lt pegA pegB then (pegA, pegB) else (pegB, pegA))"
  from ok have dist: "(peg_y pegB - peg_y pegA)\<^sup>2 + (peg_x pegB - peg_x pegA)\<^sup>2 = 5"
    and free: "\<not> blockedBy pegA pegB (redBarrierState b @ blackBarrierState b)"
    and col: "color = R \<or> color = B"
    by (simp_all add: placeBarrier_fst)
  have "pegA \<noteq> pegB"
  proof
    assume "pegA = pegB"
    with dist show False by simp
  qed
  then have swap: "(if lt pegB pegA then (pegB, pegA) else (pegA, pegB)) = barrier"
    using lt_total [of pegA pegB] by (simp add: barrier_def)
  from not_blocked_fresh [OF free] have "barrier \<notin> set (redBarrierState b @ blackBarrierState b)"
    by (simp add: barrier_def)
  then have red: "spliceFirst barrier (redBarrierState b @ [barrier]) = Some (redBarrierState b)"
    and black: "spliceFirst barrier (blackBarrierState b @ [barrier]) = Some (blackBarrierState b)"
    by (auto intro: spliceFirst_last)
  have after: "snd (placeBarrier b pegA pegB color)
      = (if color = R then b\<lparr>redBarrierState := redBarrierState b @ [barrier]\<rparr>
         else b\<lparr>blackBarrierState := blackBarrierState b @ [barrier]\<rparr>)"
    using ok by (simp add: placeBarrier_snd barrier_def)
  have canon: "(if lt pegA pegB then (pegA, pegB) else (pegB, pegA)) = barrier"
    by (simp add: barrier_def)
  have undo: "removeBarrier (snd (placeBarrier b pegA pegB color)) p q color = (True, b)"
    if cn: "(if lt p q then (p, q) else (q, p)) = barrier" for p q
  proof (cases "color = R")
    case True
    show ?thesis
      unfolding removeBarrier_def Let_def cn after using True red by simp
  next
    case False
    show ?thesis
      unfolding removeBarrier_def Let_def cn after using False black by simp
  qed
  show ?thesis
    using undo [OF canon] undo [OF swap] by (rule conjI)
qed

theorem place_then_remove_witness:
  "fst (placeBarrier boardWithPegs (Peg 3 4) (Peg 2 2) R)
   \<and> removeBarrier (snd (placeBarrier boardWithPegs (Peg 3 4) (Peg 2 2) R)) (Peg 3 4) (Peg 2 2) R
       = (True, boardWithPegs)
   \<and> removeBarrier (snd (placeBarrier boardWithPegs (Peg 3 4) (Peg 2 2) R)) (Peg 2 2) (Peg 3 4) R
       = (True, boardWithPegs)"
  using place_then_remove [of boardWithPegs "Peg 3 4" "Peg 2 2" R]
  by (simp add: placeBarrier_fst)

subsection \<open>The adjacency query\<close>

text \<open>
  Claim C9. At a cell holding \<open>X\<close>, \<^verbatim>\<open>getAdjacentPegs\<close> is empty. At a cell holding
  a colour \<open>c\<close>, on a board whose barriers of \<open>c\<close> have squared length 5 (the
  invariant of the data model), the result is, as a multiset, the opposite endpoints
  of the barriers of \<open>c\<close> that have the peg as an endpoint. On any board it is the
  second endpoints of the barriers of \<open>c\<close> that start at the peg together with the
  first endpoints of those that end at it. The result does not change when the other
  player's barrier list is replaced by any other list.
\<close>

theorem getAdjacentPegs_spec:
  "(getPeg b (asTuple peg) = Some X \<longrightarrow> getAdjacentPegs b peg = [])
   \<and> ((c = R \<or> c = B) \<and> getPeg b (asTuple peg) = Some c
        \<and> (\<forall>e \<in> set (barriersOf b c). distance5 e)
      \<longrightarrow> mset (getAdjacentPegs b peg)
            = image_mset (oppositeEndpoint peg) (filter_mset (hasEndpoint peg) (mset (barriersOf b c))))
   \<and> ((c = R \<or> c = B) \<and> getPeg b (asTuple peg) = Some c
      \<longrightarrow> mset (getAdjacentPegs b peg)
            = image_mset snd (filter_mset (\<lambda>e. fst e = peg) (mset (barriersOf b c)))
              + image_mset fst (filter_mset (\<lambda>e. snd e = peg) (mset (barriersOf b c))))
   \<and> (getPeg b (asTuple peg) = Some R
      \<longrightarrow> getAdjacentPegs (b\<lparr>blackBarrierState := others\<rparr>) peg = getAdjacentPegs b peg)
   \<and> (getPeg b (asTuple peg) = Some B
      \<longrightarrow> getAdjacentPegs (b\<lparr>redBarrierState := others\<rparr>) peg = getAdjacentPegs b peg)"
proof -
  have coll: "mset (collectAdjacent peg es)
      = image_mset (oppositeEndpoint peg) (filter_mset (hasEndpoint peg) (mset es))"
    if "\<forall>e \<in> set es. distance5 e" for es
    using that
  proof (induction es)
    case Nil
    show ?case by simp
  next
    case (Cons e es)
    from Cons.prems have "distance5 e" by simp
    then have "fst e \<noteq> snd e" by (auto simp: distance5_def)
    with Cons show ?case
      by (auto simp: hasEndpoint_def oppositeEndpoint_def)
  qed
  have ends: "mset (collectAdjacent peg es)
      = image_mset snd (filter_mset (\<lambda>e. fst e = peg) (mset es))
        + image_mset fst (filter_mset (\<lambda>e. snd e = peg) (mset es))" for es
    by (induction es) auto
  show ?thesis
    using coll [of "barriersOf b c"] ends [of "barriersOf b c"]
    by (auto simp: getAdjacentPegs_def barriersOf_def)
qed

theorem getAdjacentPegs_spec_witness:
  "getPeg boardWithBarrier (asTuple (Peg 5 5)) = Some X
   \<and> getAdjacentPegs boardWithBarrier (Peg 5 5) = []
   \<and> getPeg boardWithBarrier (asTuple (Peg 2 2)) = Some R
   \<and> list_all distance5 (barriersOf boardWithBarrier R)
   \<and> mset (getAdjacentPegs boardWithBarrier (Peg 2 2)) = {#Peg 3 4#}
   \<and> getAdjacentPegs (boardWithBarrier\<lparr>blackBarrierState := [(Peg 2 2, Peg 4 3)]\<rparr>) (Peg 2 2)
       = getAdjacentPegs boardWithBarrier (Peg 2 2)"
  using getAdjacentPegs_spec [of boardWithBarrier "Peg 5 5" R "[]"]
    getAdjacentPegs_spec [of boardWithBarrier "Peg 2 2" R "[(Peg 2 2, Peg 4 3)]"]
  by (simp add: barriersOf_def distance5_def hasEndpoint_def oppositeEndpoint_def inGrid_def)

subsection \<open>The invariant of the barrier lists\<close>

lemma spliceFirst_subset: "spliceFirst barrier es = Some rs \<Longrightarrow> set rs \<subseteq> set es"
  by (induction es arbitrary: rs) (auto split: if_splits)

lemma ownedBy_setPeg:
  "ownedBy b c e \<Longrightarrow> getPeg b t \<noteq> Some c \<Longrightarrow> ownedBy (setPeg b t v) c e"
  by (auto simp: ownedBy_def)

lemma ownedBy_barrier_update [simp]:
  "ownedBy (b\<lparr>redBarrierState := rs\<rparr>) c e = ownedBy b c e"
  "ownedBy (b\<lparr>blackBarrierState := bs\<rparr>) c e = ownedBy b c e"
  by (simp_all add: ownedBy_def)

lemma ownedBy_setPeg_away:
  "ownedBy b c e \<Longrightarrow> \<not> hasEndpoint peg e \<Longrightarrow> ownedBy (setPeg b (asTuple peg) v) c e"
  by (auto simp: ownedBy_def hasEndpoint_def)

lemma inv_placePeg: "barrierInvariant b \<Longrightarrow> barrierInvariant (snd (placePeg b peg color))"
  by (auto simp: barrierInvariant_def placePeg_snd placePeg_fst intro!: ownedBy_setPeg)

lemma inv_placeBarrier:
  assumes "barrierInvariant b"
  shows "barrierInvariant (snd (placeBarrier b peg1 peg2 color))"
proof (cases "fst (placeBarrier b peg1 peg2 color)")
  case False
  with assms show ?thesis by (simp add: placeBarrier_snd)
next
  case True
  then have d: "(peg_y peg2 - peg_y peg1)\<^sup>2 + (peg_x peg2 - peg_x peg1)\<^sup>2 = 5"
    and o: "getPeg b (asTuple peg1) = Some color" "getPeg b (asTuple peg2) = Some color"
    and c: "color = R \<or> color = B"
    by (simp_all add: placeBarrier_fst)
  from d have "distance5 (peg1, peg2)" "distance5 (peg2, peg1)"
    by (simp_all add: distance5_def power2_commute add.commute)
  moreover from o have "ownedBy b color (peg1, peg2)" "ownedBy b color (peg2, peg1)"
    by (simp_all add: ownedBy_def)
  ultimately show ?thesis
    using assms True c by (auto simp: barrierInvariant_def placeBarrier_snd)
qed

lemma inv_removePeg:
  assumes "barrierInvariant b"
  shows "barrierInvariant (snd (removePeg b peg color))"
proof (cases "fst (removePeg b peg color)")
  case False
  with assms show ?thesis by (simp add: removePeg_snd)
next
  case True
  then have cell: "getPeg b (asTuple peg) = Some color" by (simp add: removePeg_fst)
  have red: "ownedBy (setPeg b' (asTuple peg) X) R e"
    if "e \<in> set (redBarrierState b)" "color = R \<longrightarrow> \<not> hasEndpoint peg e"
       "\<And>e. ownedBy b' R e = ownedBy b R e" for e b'
  proof -
    from assms that(1) have own: "ownedBy b R e" by (simp add: barrierInvariant_def)
    have "\<not> hasEndpoint peg e"
      using that(2) own cell by (cases "color = R") (auto simp: ownedBy_def hasEndpoint_def)
    with own show ?thesis
      using that(3) by (auto simp: ownedBy_def hasEndpoint_def)
  qed
  have black: "ownedBy (setPeg b' (asTuple peg) X) B e"
    if "e \<in> set (blackBarrierState b)" "color \<noteq> R \<longrightarrow> \<not> hasEndpoint peg e"
       "\<And>e. ownedBy b' B e = ownedBy b B e" for e b'
  proof -
    from assms that(1) have own: "ownedBy b B e" by (simp add: barrierInvariant_def)
    have "\<not> hasEndpoint peg e"
      using that(2) own cell by (cases "color = R") (auto simp: ownedBy_def hasEndpoint_def)
    with own show ?thesis
      using that(3) by (auto simp: ownedBy_def hasEndpoint_def)
  qed
  show ?thesis
    using assms True by (auto simp: barrierInvariant_def removePeg_snd intro!: red black)
qed

lemma inv_removeBarrier:
  assumes "barrierInvariant b"
  shows "barrierInvariant (snd (removeBarrier b peg1 peg2 color))"
proof (cases "spliceFirst (if lt peg1 peg2 then (peg1, peg2) else (peg2, peg1)) (barriersOf b color)")
  case None
  with assms show ?thesis by (simp add: removeBarrier_snd)
next
  case (Some rs)
  from spliceFirst_subset [OF Some] have sub: "set rs \<subseteq> set (barriersOf b color)" .
  have after: "snd (removeBarrier b peg1 peg2 color)
      = (if color = R then b\<lparr>redBarrierState := rs\<rparr> else b\<lparr>blackBarrierState := rs\<rparr>)"
    by (simp only: removeBarrier_snd Some option.case)
  show ?thesis
  proof (cases "color = R")
    case True
    with sub assms show ?thesis
      unfolding after by (auto simp: barrierInvariant_def barriersOf_def)
  next
    case False
    with sub assms show ?thesis
      unfolding after by (auto simp: barrierInvariant_def barriersOf_def)
  qed
qed

lemma inv_newBoard: "barrierInvariant newBoard"
  by (simp add: barrierInvariant_def)

lemma reachable_invariant: "reachable b \<Longrightarrow> barrierInvariant b"
  by (induction rule: reachable.induct)
     (simp_all add: inv_newBoard inv_placePeg inv_placeBarrier inv_removePeg inv_removeBarrier)

text \<open>
  Claim C4. On every reachable board each stored barrier has squared length 5 and
  both its endpoints hold the owner's colour; and each of \<^verbatim>\<open>placePeg\<close>,
  \<^verbatim>\<open>placeBarrier\<close>, \<^verbatim>\<open>removePeg\<close>, \<^verbatim>\<open>removeBarrier\<close>, called with any pegs and
  any player value, preserves this invariant.
\<close>

theorem barrier_invariant:
  "(reachable b \<longrightarrow> barrierInvariant b)
   \<and> (barrierInvariant b \<longrightarrow>
        barrierInvariant (snd (placePeg b peg color))
        \<and> barrierInvariant (snd (placeBarrier b peg1 peg2 color))
        \<and> barrierInvariant (snd (removePeg b peg color))
        \<and> barrierInvariant (snd (removeBarrier b peg1 peg2 color)))"
  by (simp add: reachable_invariant inv_placePeg inv_placeBarrier inv_removePeg inv_removeBarrier)

theorem barrier_invariant_witness:
  "reachable boardWithBarrier
   \<and> barrierInvariant boardWithBarrier
   \<and> list_all (\<lambda>e. distance5 e \<and> ownedBy boardWithBarrier R e) (redBarrierState boardWithBarrier)
   \<and> redBarrierState boardWithBarrier = [(Peg 2 2, Peg 3 4)]
   \<and> barrierInvariant (snd (removePeg boardWithBarrier (Peg 2 2) R))
   \<and> redBarrierState (snd (removePeg boardWithBarrier (Peg 2 2) R)) = []"
  using barrier_invariant [of boardWithBarrier "Peg 2 2" R "Peg 2 2" "Peg 3 4"] reachable_examples
  by (simp add: barrierInvariant_def removePeg_snd removePeg_fst hasEndpoint_def)

subsection \<open>Placing a barrier: the intersection check\<close>

lemma square_not_5: "(d::int)\<^sup>2 \<noteq> 5"
proof
  assume d: "d\<^sup>2 = 5"
  then have "\<bar>d\<bar>\<^sup>2 < 3\<^sup>2" by simp
  then have "\<bar>d\<bar> < 3" by (rule power2_less_imp_less) simp
  then have "d = -2 \<or> d = -1 \<or> d = 0 \<or> d = 1 \<or> d = 2" by arith
  with d show False by auto
qed

lemma distance5_run: "distance5 e \<Longrightarrow> peg_x (snd e) \<noteq> peg_x (fst e)"
  using square_not_5 [of "peg_y (snd e) - peg_y (fst e)"] by (auto simp: distance5_def)

lemma onLine_slope:
  assumes "peg_x q \<noteq> peg_x p"
  shows "onLine p q pt \<longleftrightarrow> snd pt = slope p q * (fst pt - of_int (peg_x p)) + of_int (peg_y p)"
proof -
  have nz: "(of_int (peg_x q - peg_x p) :: rat) \<noteq> 0" using assms by simp
  show ?thesis
    unfolding onLine_def slope_def using nz by (auto simp: field_simps)
qed

lemma lines_meet:
  fixes m1 m3 x1 y1 x3 y3 px py :: rat
  assumes "m1 \<noteq> m3"
  shows "(py = m1 * (px - x1) + y1 \<and> py = m3 * (px - x3) + y3)
     \<longleftrightarrow> (px = (x1 * m1 - x3 * m3 + y3 - y1) / (m1 - m3) \<and> py = m1 * (px - x1) + y1)"
proof -
  have nz: "m1 - m3 \<noteq> 0" using assms by simp
  have "px = (x1 * m1 - x3 * m3 + y3 - y1) / (m1 - m3)
          \<longleftrightarrow> px * (m1 - m3) = x1 * m1 - x3 * m3 + y3 - y1"
    using nz by (simp add: eq_divide_eq)
  also have "\<dots> \<longleftrightarrow> m1 * (px - x1) + y1 = m3 * (px - x3) + y3"
    by (auto simp: algebra_simps)
  finally show ?thesis by auto
qed

text \<open>
  A barrier of squared length 5 runs 1 across and 2 along or the reverse, so its
  slope is one of four numbers that binary floating point represents exactly.
\<close>

lemma small_square: "(d::int)\<^sup>2 \<le> 5 \<Longrightarrow> d = -2 \<or> d = -1 \<or> d = 0 \<or> d = 1 \<or> d = 2"
proof -
  assume "d\<^sup>2 \<le> 5"
  then have "\<bar>d\<bar>\<^sup>2 < 3\<^sup>2" by simp
  then have "\<bar>d\<bar> < 3" by (rule power2_less_imp_less) simp
  then show ?thesis by arith
qed

lemma distance5_shape:
  assumes "distance5 e"
  shows "(\<bar>peg_x (snd e) - peg_x (fst e)\<bar> = 1 \<and> \<bar>peg_y (snd e) - peg_y (fst e)\<bar> = 2)
         \<or> (\<bar>peg_x (snd e) - peg_x (fst e)\<bar> = 2 \<and> \<bar>peg_y (snd e) - peg_y (fst e)\<bar> = 1)"
proof -
  define dx dy where "dx = peg_x (snd e) - peg_x (fst e)" and "dy = peg_y (snd e) - peg_y (fst e)"
  from assms have eq: "dx\<^sup>2 + dy\<^sup>2 = 5" by (simp add: distance5_def dx_def dy_def)
  have "dx\<^sup>2 \<le> 5" "dy\<^sup>2 \<le> 5"
    using eq zero_le_power2 [of dx] zero_le_power2 [of dy] by linarith+
  then have "dx = -2 \<or> dx = -1 \<or> dx = 0 \<or> dx = 1 \<or> dx = 2"
    and "dy = -2 \<or> dy = -1 \<or> dy = 0 \<or> dy = 1 \<or> dy = 2"
    by (simp_all only: small_square)
  with eq have "(\<bar>dx\<bar> = 1 \<and> \<bar>dy\<bar> = 2) \<or> (\<bar>dx\<bar> = 2 \<and> \<bar>dy\<bar> = 1)"
    by auto
  then show ?thesis by (simp add: dx_def dy_def)
qed

lemma distance5_slope:
  assumes "distance5 e"
  shows "slope (fst e) (snd e) \<in> {2, -2, 1/2, -1/2}"
proof -
  define dx dy where "dx = peg_x (snd e) - peg_x (fst e)" and "dy = peg_y (snd e) - peg_y (fst e)"
  from distance5_shape [OF assms]
  have "(\<bar>dx\<bar> = 1 \<and> \<bar>dy\<bar> = 2) \<or> (\<bar>dx\<bar> = 2 \<and> \<bar>dy\<bar> = 1)"
    by (simp add: dx_def dy_def)
  then have "(dx = 1 \<or> dx = -1) \<and> (dy = 2 \<or> dy = -2) \<or> (dx = 2 \<or> dx = -2) \<and> (dy = 1 \<or> dy = -1)"
    by arith
  moreover have "slope (fst e) (snd e) = of_int dy / of_int dx"
    by (simp add: slope_def dx_def dy_def)
  ultimately show ?thesis by auto
qed

lemma blocks_parallel:
  "slope peg1 peg2 = slope (fst e) (snd e) \<Longrightarrow> blocks peg1 peg2 e \<longleftrightarrow> exactMatch peg1 peg2 e"
  by (simp add: blocks_def exactMatch_def Let_def)

lemma blocks_point:
  assumes "slope peg1 peg2 \<noteq> slope (fst e) (snd e)"
  shows "blocks peg1 peg2 e \<longleftrightarrow>
    (let xi = (of_int (peg_x peg1) * slope peg1 peg2 - of_int (peg_x (fst e)) * slope (fst e) (snd e)
                + of_int (peg_y (fst e)) - of_int (peg_y peg1))
              / (slope peg1 peg2 - slope (fst e) (snd e));
         yi = slope peg1 peg2 * (xi - of_int (peg_x peg1)) + of_int (peg_y peg1)
     in strictlyInside peg1 peg2 (xi, yi) \<and> strictlyInside (fst e) (snd e) (xi, yi))"
  using assms by (auto simp: blocks_def Let_def strictlyInside_def)

lemma meeting_point:
  assumes r1: "peg_x peg2 \<noteq> peg_x peg1" and r3: "peg_x (snd e) \<noteq> peg_x (fst e)"
    and ne: "slope peg1 peg2 \<noteq> slope (fst e) (snd e)"
  shows "onLine peg1 peg2 pt \<and> onLine (fst e) (snd e) pt \<longleftrightarrow>
    pt = (let xi = (of_int (peg_x peg1) * slope peg1 peg2 - of_int (peg_x (fst e)) * slope (fst e) (snd e)
                + of_int (peg_y (fst e)) - of_int (peg_y peg1))
              / (slope peg1 peg2 - slope (fst e) (snd e))
          in (xi, slope peg1 peg2 * (xi - of_int (peg_x peg1)) + of_int (peg_y peg1)))"
  unfolding onLine_slope [OF r1] onLine_slope [OF r3] lines_meet [OF ne] Let_def
  by (cases pt) auto

lemma blocks_crossing:
  assumes r1: "peg_x peg2 \<noteq> peg_x peg1" and r3: "peg_x (snd e) \<noteq> peg_x (fst e)"
    and ne: "slope peg1 peg2 \<noteq> slope (fst e) (snd e)"
  shows "blocks peg1 peg2 e \<longleftrightarrow> crossesStrictly peg1 peg2 e"
proof -
  have "crossesStrictly peg1 peg2 e \<longleftrightarrow>
      (\<exists>pt. (onLine peg1 peg2 pt \<and> onLine (fst e) (snd e) pt)
            \<and> strictlyInside peg1 peg2 pt \<and> strictlyInside (fst e) (snd e) pt)"
    by (auto simp: crossesStrictly_def)
  also have "\<dots> \<longleftrightarrow> blocks peg1 peg2 e"
    unfolding meeting_point [OF r1 r3 ne] blocks_point [OF ne] by (simp add: Let_def)
  finally show ?thesis by simp
qed

lemma onLine_ends: "onLine p q (of_int (peg_x p), of_int (peg_y p))"
  "onLine p q (of_int (peg_x q), of_int (peg_y q))"
  by (simp_all add: onLine_def)

lemma not_inside_ends:
  "\<not> strictlyInside p q (of_int (peg_x p), of_int (peg_y p))"
  "\<not> strictlyInside p q (of_int (peg_x q), of_int (peg_y q))"
  by (simp_all add: strictlyInside_def between_def)

lemma touching_not_blocked:
  assumes r1: "peg_x peg2 \<noteq> peg_x peg1" and r3: "peg_x (snd e) \<noteq> peg_x (fst e)"
    and sh: "sharesEndpoint peg1 peg2 e" and nm: "\<not> exactMatch peg1 peg2 e"
  shows "\<not> blocks peg1 peg2 e"
proof (cases "slope peg1 peg2 = slope (fst e) (snd e)")
  case True
  with nm show ?thesis by (simp add: blocks_parallel)
next
  case False
  obtain s where s: "s = peg1 \<or> s = peg2" "s = fst e \<or> s = snd e"
    using sh by (auto simp: sharesEndpoint_def)
  let ?pt = "(of_int (peg_x s) :: rat, of_int (peg_y s) :: rat)"
  have on: "onLine peg1 peg2 ?pt \<and> onLine (fst e) (snd e) ?pt"
    using s onLine_ends by auto
  have out: "\<not> strictlyInside peg1 peg2 ?pt"
    using s(1) not_inside_ends by auto
  show ?thesis
  proof
    assume "blocks peg1 peg2 e"
    then have "crossesStrictly peg1 peg2 e" by (simp add: blocks_crossing [OF r1 r3 False])
    then obtain pt where pt: "onLine peg1 peg2 pt \<and> onLine (fst e) (snd e) pt"
      "strictlyInside peg1 peg2 pt"
      by (auto simp: crossesStrictly_def)
    from pt(1) on have "pt = ?pt"
      unfolding meeting_point [OF r1 r3 False] by simp
    with pt(2) out show False by simp
  qed
qed

text \<open>
  Claim C2. Let the proposed barrier of a colour Red or Black pass the distance and
  ownership checks, on a board whose stored barriers have squared length 5. Then
  \<^verbatim>\<open>placeBarrier\<close> returns false exactly when some stored barrier, of either player,
  has the slope of the proposal and the same two endpoints in either order, or has
  another slope and the point common to the two lines lies strictly between the
  endpoint coordinates of both segments on both axes. A stored barrier that shares
  an endpoint with the proposal without having both, and one that has the slope of
  the proposal without being the same barrier, do not make the check fail.
\<close>

theorem intersection_check:
  "(color = R \<or> color = B)
   \<and> (peg_x pegB - peg_x pegA)\<^sup>2 + (peg_y pegB - peg_y pegA)\<^sup>2 = 5
   \<and> getPeg b (asTuple pegA) = Some color \<and> getPeg b (asTuple pegB) = Some color
   \<and> (\<forall>e \<in> set (redBarrierState b @ blackBarrierState b). distance5 e)
   \<Longrightarrow>
   (\<not> fst (placeBarrier b pegA pegB color) \<longleftrightarrow>
      (\<exists>e \<in> set (redBarrierState b @ blackBarrierState b).
          (slope pegA pegB = slope (fst e) (snd e) \<and> exactMatch pegA pegB e)
          \<or> (slope pegA pegB \<noteq> slope (fst e) (snd e) \<and> crossesStrictly pegA pegB e)))
   \<and> (\<forall>e \<in> set (redBarrierState b @ blackBarrierState b).
         sharesEndpoint pegA pegB e \<and> \<not> exactMatch pegA pegB e \<longrightarrow> \<not> blocks pegA pegB e)
   \<and> (\<forall>e \<in> set (redBarrierState b @ blackBarrierState b).
         slope pegA pegB = slope (fst e) (snd e) \<and> \<not> exactMatch pegA pegB e
         \<longrightarrow> \<not> blocks pegA pegB e)"
proof -
  assume pre: "(color = R \<or> color = B)
   \<and> (peg_x pegB - peg_x pegA)\<^sup>2 + (peg_y pegB - peg_y pegA)\<^sup>2 = 5
   \<and> getPeg b (asTuple pegA) = Some color \<and> getPeg b (asTuple pegB) = Some color
   \<and> (\<forall>e \<in> set (redBarrierState b @ blackBarrierState b). distance5 e)"
  let ?es = "redBarrierState b @ blackBarrierState b"
  from pre have "distance5 (pegA, pegB)" by (simp add: distance5_def)
  then have r1: "peg_x pegB \<noteq> peg_x pegA" using distance5_run by fastforce
  have r3: "peg_x (snd e) \<noteq> peg_x (fst e)" if "e \<in> set ?es" for e
    using pre that distance5_run by blast
  have each: "blocks pegA pegB e \<longleftrightarrow>
      (slope pegA pegB = slope (fst e) (snd e) \<and> exactMatch pegA pegB e)
      \<or> (slope pegA pegB \<noteq> slope (fst e) (snd e) \<and> crossesStrictly pegA pegB e)"
    if "e \<in> set ?es" for e
    using blocks_parallel [of pegA pegB e] blocks_crossing [OF r1 r3 [OF that]] by blast
  have "\<not> fst (placeBarrier b pegA pegB color) \<longleftrightarrow> blockedBy pegA pegB ?es"
    using pre by (simp add: placeBarrier_fst add.commute)
  also have "\<dots> \<longleftrightarrow> (\<exists>e \<in> set ?es. blocks pegA pegB e)"
    by (rule blockedBy_iff)
  finally have first: "\<not> fst (placeBarrier b pegA pegB color) \<longleftrightarrow>
      (\<exists>e \<in> set ?es.
          (slope pegA pegB = slope (fst e) (snd e) \<and> exactMatch pegA pegB e)
          \<or> (slope pegA pegB \<noteq> slope (fst e) (snd e) \<and> crossesStrictly pegA pegB e))"
    using each by blast
  have second: "\<forall>e \<in> set ?es.
      sharesEndpoint pegA pegB e \<and> \<not> exactMatch pegA pegB e \<longrightarrow> \<not> blocks pegA pegB e"
    using touching_not_blocked [OF r1 r3] by blast
  have third: "\<forall>e \<in> set ?es.
      slope pegA pegB = slope (fst e) (snd e) \<and> \<not> exactMatch pegA pegB e
      \<longrightarrow> \<not> blocks pegA pegB e"
    by (simp add: blocks_parallel)
  from first second third show ?thesis by (intro conjI)
qed

theorem intersection_check_witness:
  "(peg_x (Peg 4 3) - peg_x (Peg 2 4))\<^sup>2 + (peg_y (Peg 4 3) - peg_y (Peg 2 4))\<^sup>2 = 5
   \<and> getPeg boardCrossing (asTuple (Peg 2 4)) = Some R
   \<and> getPeg boardCrossing (asTuple (Peg 4 3)) = Some R
   \<and> list_all distance5 (redBarrierState boardCrossing @ blackBarrierState boardCrossing)
   \<and> \<not> fst (placeBarrier boardCrossing (Peg 2 4) (Peg 4 3) R)
   \<and> slope (Peg 2 4) (Peg 4 3) \<noteq> slope (Peg 2 2) (Peg 3 4)
   \<and> crossesStrictly (Peg 2 4) (Peg 4 3) (Peg 2 2, Peg 3 4)
   \<and> sharesEndpoint (Peg 2 2) (Peg 4 3) (Peg 2 2, Peg 3 4)
   \<and> \<not> exactMatch (Peg 2 2) (Peg 4 3) (Peg 2 2, Peg 3 4)
   \<and> \<not> blocks (Peg 2 2) (Peg 4 3) (Peg 2 2, Peg 3 4)
   \<and> fst (placeBarrier boardCrossing (Peg 2 2) (Peg 4 3) R)"
proof -
  have crossed: "\<not> fst (placeBarrier boardCrossing (Peg 2 4) (Peg 4 3) R)"
    by (simp add: placeBarrier_fst blocks_def Let_def between_def slope_def)
  have touching: "fst (placeBarrier boardCrossing (Peg 2 2) (Peg 4 3) R)"
    by (simp add: placeBarrier_fst blocks_def Let_def between_def slope_def)
  show ?thesis
    using intersection_check [of R "Peg 4 3" "Peg 2 4" boardCrossing]
      intersection_check [of R "Peg 4 3" "Peg 2 2" boardCrossing]
    by (simp add: crossed touching distance5_def slope_def exactMatch_def sharesEndpoint_def)
qed

subsection \<open>Win detection\<close>

lemma queue_split: "queue \<noteq> [] \<Longrightarrow> set queue = insert (last queue) (set (butlast queue))"
  by (induction queue) auto

lemma connectLoop_sound:
  "set (connectLoop b queue connectedPegs) \<subseteq> set connectedPegs \<union> (keyStep b)\<^sup>* `` set queue"
proof (induction b queue connectedPegs rule: connectLoop.induct)
  case (1 b queue connectedPegs)
  show ?case
  proof (cases "queue = []")
    case True
    then show ?thesis by (simp add: connectLoop.simps)
  next
    case False
    note split = queue_split [OF False]
    show ?thesis
    proof (cases "last queue \<in> set connectedPegs")
      case True
      have "connectLoop b queue connectedPegs = connectLoop b (butlast queue) connectedPegs"
        using False True by (subst connectLoop.simps) simp
      moreover have "(keyStep b)\<^sup>* `` set (butlast queue) \<subseteq> (keyStep b)\<^sup>* `` set queue"
        unfolding split by blast
      ultimately show ?thesis using "1.IH"(1) [OF False True] by (simp only:) blast
    next
      case notin: False
      have eq: "connectLoop b queue connectedPegs
          = connectLoop b (butlast queue @ adjacentKeys b (last queue)) (connectedPegs @ [last queue])"
        using False notin by (subst connectLoop.simps) simp
      have "(keyStep b)\<^sup>* `` set (adjacentKeys b (last queue)) \<subseteq> (keyStep b)\<^sup>* `` {last queue}"
        by (auto simp: keyStep_def intro: converse_rtrancl_into_rtrancl)
      then have "(keyStep b)\<^sup>* `` set (butlast queue @ adjacentKeys b (last queue))
                  \<subseteq> (keyStep b)\<^sup>* `` set queue"
        unfolding split by auto
      moreover have "last queue \<in> (keyStep b)\<^sup>* `` set queue"
        unfolding split by auto
      ultimately show ?thesis
        using "1.IH"(2) [OF False notin] unfolding eq by (simp only: set_append set_simps) blast
    qed
  qed
qed

lemma connectLoop_closed:
  assumes "\<forall>s \<in> set connectedPegs. set (adjacentKeys b s) \<subseteq> set connectedPegs \<union> set queue"
  shows "set connectedPegs \<union> set queue \<subseteq> set (connectLoop b queue connectedPegs)
         \<and> (\<forall>s \<in> set (connectLoop b queue connectedPegs).
               set (adjacentKeys b s) \<subseteq> set (connectLoop b queue connectedPegs))"
  using assms
proof (induction b queue connectedPegs rule: connectLoop.induct)
  case (1 b queue connectedPegs)
  show ?case
  proof (cases "queue = []")
    case True
    with "1.prems" show ?thesis by (simp add: connectLoop.simps)
  next
    case False
    note split = queue_split [OF False]
    show ?thesis
    proof (cases "last queue \<in> set connectedPegs")
      case True
      have eq: "connectLoop b queue connectedPegs = connectLoop b (butlast queue) connectedPegs"
        using False True by (subst connectLoop.simps) simp
      have "\<forall>s \<in> set connectedPegs. set (adjacentKeys b s) \<subseteq> set connectedPegs \<union> set (butlast queue)"
        using "1.prems" True unfolding split by auto
      from "1.IH"(1) [OF False True this] show ?thesis
        unfolding eq split using True by auto
    next
      case notin: False
      have eq: "connectLoop b queue connectedPegs
          = connectLoop b (butlast queue @ adjacentKeys b (last queue)) (connectedPegs @ [last queue])"
        using False notin by (subst connectLoop.simps) simp
      have "\<forall>s \<in> set (connectedPegs @ [last queue]).
              set (adjacentKeys b s)
                \<subseteq> set (connectedPegs @ [last queue])
                  \<union> set (butlast queue @ adjacentKeys b (last queue))"
        using "1.prems" unfolding split by auto
      from "1.IH"(2) [OF False notin this] show ?thesis
        unfolding eq split by auto
    qed
  qed
qed

lemma connectLoop_reach: "set (connectLoop b queue []) = (keyStep b)\<^sup>* `` set queue"
proof
  show "set (connectLoop b queue []) \<subseteq> (keyStep b)\<^sup>* `` set queue"
    using connectLoop_sound [of b queue "[]"] by simp
next
  have closed: "set queue \<subseteq> set (connectLoop b queue [])"
    "\<forall>s \<in> set (connectLoop b queue []). set (adjacentKeys b s) \<subseteq> set (connectLoop b queue [])"
    using connectLoop_closed [of "[]" b queue] by simp_all
  have "t \<in> set (connectLoop b queue [])" if "(s, t) \<in> (keyStep b)\<^sup>*" "s \<in> set queue" for s t
    using that
  proof (induction rule: rtrancl_induct)
    case base
    with closed(1) show ?case by auto
  next
    case (step u v)
    then have "u \<in> set (connectLoop b queue [])" by simp
    moreover from step have "v \<in> set (adjacentKeys b u)" by (simp add: keyStep_def)
    ultimately show ?case using closed(2) by auto
  qed
  then show "(keyStep b)\<^sup>* `` set queue \<subseteq> set (connectLoop b queue [])" by auto
qed

lemma pegKey_inj [simp]: "pegKey p = pegKey q \<longleftrightarrow> p = q"
  by (simp add: pegKey_def)

lemma adjacentKeys_pegKey: "adjacentKeys b (pegKey p) = map pegKey (getAdjacentPegs b p)"
  by (cases p) (simp add: adjacentKeys_def pegKey_def)

lemma joinedBy_Cons:
  "joinedBy (e # es) p q \<longleftrightarrow> (p = fst e \<and> q = snd e) \<or> (p = snd e \<and> q = fst e) \<or> joinedBy es p q"
  unfolding joinedBy_def by (cases e) (simp, blast)

lemma in_collectAdjacent: "q \<in> set (collectAdjacent p es) \<longleftrightarrow> joinedBy es p q"
proof (induction es)
  case Nil
  show ?case by (simp add: joinedBy_def)
next
  case (Cons e es)
  show ?case
    unfolding joinedBy_Cons by (simp add: Cons) blast
qed

lemma getAdjacentPegs_coloured:
  "c = R \<or> c = B \<Longrightarrow> getPeg b (asTuple p) = Some c \<Longrightarrow>
     getAdjacentPegs b p = collectAdjacent p (barriersOf b c)"
  by (auto simp: getAdjacentPegs_def barriersOf_def)

lemma joined_coloured:
  assumes "barrierInvariant b" "c = R \<or> c = B" "joinedBy (barriersOf b c) p q"
  shows "getPeg b (asTuple p) = Some c \<and> getPeg b (asTuple q) = Some c"
proof -
  from assms(3) obtain e where e: "e \<in> set (barriersOf b c)" "e = (p, q) \<or> e = (q, p)"
    by (auto simp: joinedBy_def)
  with assms(1,2) have "ownedBy b c e"
    by (auto simp: barrierInvariant_def barriersOf_def)
  with e(2) show ?thesis by (auto simp: ownedBy_def)
qed

lemma keyStep_from_peg:
  assumes inv: "barrierInvariant b" and col: "c = R \<or> c = B"
    and p: "getPeg b (asTuple p) = Some c"
  shows "(keyStep b)\<^sup>* `` {pegKey p} = pegKey ` ((pegStep b c)\<^sup>* `` {p})"
proof (intro equalityI subsetI)
  fix t
  assume "t \<in> (keyStep b)\<^sup>* `` {pegKey p}"
  then have "(pegKey p, t) \<in> (keyStep b)\<^sup>*" by simp
  then have "\<exists>q. t = pegKey q \<and> (p, q) \<in> (pegStep b c)\<^sup>* \<and> getPeg b (asTuple q) = Some c"
  proof (induction rule: rtrancl_induct)
    case base
    with p show ?case by blast
  next
    case (step u v)
    then obtain q where q: "u = pegKey q" "(p, q) \<in> (pegStep b c)\<^sup>*" "getPeg b (asTuple q) = Some c"
      by blast
    from step(2) q(1) have "v \<in> pegKey ` set (getAdjacentPegs b q)"
      by (simp add: keyStep_def adjacentKeys_pegKey)
    then obtain q' where "v = pegKey q'" "q' \<in> set (getAdjacentPegs b q)"
      by blast
    then have q': "v = pegKey q'" "joinedBy (barriersOf b c) q q'"
      by (simp_all add: getAdjacentPegs_coloured [OF col q(3)] in_collectAdjacent)
    from q'(2) have "(q, q') \<in> pegStep b c" by (simp add: pegStep_def)
    with q(2) have "(p, q') \<in> (pegStep b c)\<^sup>*" by (rule rtrancl_into_rtrancl)
    moreover from joined_coloured [OF inv col q'(2)] have "getPeg b (asTuple q') = Some c" by simp
    ultimately show ?case using q'(1) by blast
  qed
  then show "t \<in> pegKey ` ((pegStep b c)\<^sup>* `` {p})" by blast
next
  fix t
  assume "t \<in> pegKey ` ((pegStep b c)\<^sup>* `` {p})"
  then obtain q where q: "t = pegKey q" "(p, q) \<in> (pegStep b c)\<^sup>*" by blast
  from q(2) have "getPeg b (asTuple q) = Some c \<and> (pegKey p, pegKey q) \<in> (keyStep b)\<^sup>*"
  proof (induction rule: rtrancl_induct)
    case base
    with p show ?case by simp
  next
    case (step u v)
    then have u: "getPeg b (asTuple u) = Some c" "(pegKey p, pegKey u) \<in> (keyStep b)\<^sup>*"
      by simp_all
    from step(2) have j: "joinedBy (barriersOf b c) u v" by (simp add: pegStep_def)
    then have "v \<in> set (getAdjacentPegs b u)"
      by (simp add: getAdjacentPegs_coloured [OF col u(1)] in_collectAdjacent)
    then have "(pegKey u, pegKey v) \<in> keyStep b"
      by (simp add: keyStep_def adjacentKeys_pegKey)
    with u(2) have "(pegKey p, pegKey v) \<in> (keyStep b)\<^sup>*" by (rule rtrancl_into_rtrancl)
    with joined_coloured [OF inv col j] show ?case by simp
  qed
  with q(1) show "t \<in> (keyStep b)\<^sup>* `` {pegKey p}" by simp
qed

lemma chain_snoc:
  "ps \<noteq> [] \<Longrightarrow> chain bs (ps @ [q]) \<longleftrightarrow> chain bs ps \<and> joinedBy bs (last ps) q"
  by (induction bs ps rule: chain.induct) auto

lemma chain_reaches:
  "chain (barriersOf b c) (p # ps) \<Longrightarrow> (p, last (p # ps)) \<in> (pegStep b c)\<^sup>*"
proof (induction ps arbitrary: p)
  case Nil
  show ?case by simp
next
  case (Cons q ps)
  then have "(p, q) \<in> pegStep b c" and "(q, last (q # ps)) \<in> (pegStep b c)\<^sup>*"
    by (simp_all add: pegStep_def)
  then show ?case by (simp add: converse_rtrancl_into_rtrancl)
qed

lemma reaches_chain:
  assumes "(p, q) \<in> (pegStep b c)\<^sup>*"
  shows "\<exists>ps. ps \<noteq> [] \<and> hd ps = p \<and> last ps = q \<and> chain (barriersOf b c) ps"
  using assms
proof (induction rule: rtrancl_induct)
  case base
  have "[p] \<noteq> [] \<and> hd [p] = p \<and> last [p] = p \<and> chain (barriersOf b c) [p]" by simp
  then show ?case by blast
next
  case (step u v)
  then obtain ps where ps: "ps \<noteq> []" "hd ps = p" "last ps = u" "chain (barriersOf b c) ps"
    by blast
  from step(2) have "joinedBy (barriersOf b c) u v" by (simp add: pegStep_def)
  with ps have "ps @ [v] \<noteq> [] \<and> hd (ps @ [v]) = p \<and> last (ps @ [v]) = v
      \<and> chain (barriersOf b c) (ps @ [v])"
    by (simp add: chain_snoc)
  then show ?case by blast
qed

lemma reachable_inGrid: "reachable b \<Longrightarrow> getPeg b t = Some c \<Longrightarrow> inGrid t"
proof (induction arbitrary: t c rule: reachable.induct)
  case fresh
  then show ?case by (simp split: if_splits)
next
  case (afterPlacePeg b peg color)
  then show ?case by (auto simp: placePeg_snd placePeg_fst split: if_splits)
next
  case (afterPlaceBarrier b peg1 peg2 color)
  then show ?case by (auto simp: placeBarrier_snd split: if_splits)
next
  case (afterRemovePeg b peg color)
  then show ?case by (auto simp: removePeg_snd removePeg_fst split: if_splits)
next
  case (afterRemoveBarrier b peg1 peg2 color)
  then show ?case by (auto simp: removeBarrier_snd split: if_splits option.splits)
qed

lemma firstHomeRow_set:
  assumes grid: "\<forall>t c. getPeg b t = Some c \<longrightarrow> inGrid t" and col: "c = R \<or> c = B"
  shows "set (firstHomeRow b c) = pegKey ` {p. getPeg b (asTuple p) = Some c \<and> homeCoord c p = 1}"
proof (intro equalityI subsetI)
  fix s
  assume "s \<in> set (firstHomeRow b c)"
  then have "\<exists>i. s = pegKey (if c = R then Peg i 1 else Peg 1 i)
                \<and> getPeg b (asTuple (if c = R then Peg i 1 else Peg 1 i)) = Some c"
    using col by (auto simp: firstHomeRow_def pegKey_def)
  then show "s \<in> pegKey ` {p. getPeg b (asTuple p) = Some c \<and> homeCoord c p = 1}"
    by (auto simp: homeCoord_def)
next
  fix s
  assume "s \<in> pegKey ` {p. getPeg b (asTuple p) = Some c \<and> homeCoord c p = 1}"
  then obtain p where p: "s = pegKey p" "getPeg b (asTuple p) = Some c" "homeCoord c p = 1"
    by blast
  from grid p(2) have "inGrid (asTuple p)" by blast
  then have g: "peg_x p \<in> {1..24}" "peg_y p \<in> {1..24}"
    by (simp_all add: inGrid_def asTuple_def)
  show "s \<in> set (firstHomeRow b c)"
  proof (cases "c = R")
    case True
    with p have "(peg_x p, 1) = asTuple p" by (simp add: homeCoord_def asTuple_def)
    with p g True show ?thesis
      by (auto simp: firstHomeRow_def pegKey_def image_iff intro!: bexI [of _ "peg_x p"])
  next
    case False
    with col have B: "c = B" by simp
    with p have "(1, peg_y p) = asTuple p" by (simp add: homeCoord_def asTuple_def)
    with p g B show ?thesis
      by (auto simp: firstHomeRow_def pegKey_def image_iff intro!: bexI [of _ "peg_y p"])
  qed
qed

lemma inOtherHomeRow_pegKey:
  "c = R \<or> c = B \<Longrightarrow> inOtherHomeRow c (pegKey q) \<longleftrightarrow> homeCoord c q = 24"
  by (cases q) (auto simp: inOtherHomeRow_def pegKey_def homeCoord_def)

lemma gameWon_reach:
  assumes inv: "barrierInvariant b" and grid: "\<forall>t c. getPeg b t = Some c \<longrightarrow> inGrid t"
    and col: "c = R \<or> c = B"
  shows "gameWon b c \<longleftrightarrow>
    (\<exists>p q. getPeg b (asTuple p) = Some c \<and> homeCoord c p = 1
           \<and> (p, q) \<in> (pegStep b c)\<^sup>* \<and> homeCoord c q = 24)"
proof -
  let ?seeds = "{p. getPeg b (asTuple p) = Some c \<and> homeCoord c p = 1}"
  have "set (connectLoop b (firstHomeRow b c) []) = (keyStep b)\<^sup>* `` (pegKey ` ?seeds)"
    by (simp only: connectLoop_reach firstHomeRow_set [OF grid col])
  also have "\<dots> = (\<Union>p \<in> ?seeds. (keyStep b)\<^sup>* `` {pegKey p})"
    by blast
  also have "\<dots> = (\<Union>p \<in> ?seeds. pegKey ` ((pegStep b c)\<^sup>* `` {p}))"
    using keyStep_from_peg [OF inv col] by simp
  finally have conn: "set (connectLoop b (firstHomeRow b c) [])
      = (\<Union>p \<in> ?seeds. pegKey ` ((pegStep b c)\<^sup>* `` {p}))" .
  have "gameWon b c \<longleftrightarrow> (\<exists>s \<in> set (connectLoop b (firstHomeRow b c) []). inOtherHomeRow c s)"
    by (simp add: gameWon_def list_ex_iff)
  also have "\<dots> \<longleftrightarrow> (\<exists>p \<in> ?seeds. \<exists>q \<in> (pegStep b c)\<^sup>* `` {p}. inOtherHomeRow c (pegKey q))"
    unfolding conn by blast
  also have "\<dots> \<longleftrightarrow> (\<exists>p \<in> ?seeds. \<exists>q \<in> (pegStep b c)\<^sup>* `` {p}. homeCoord c q = 24)"
    by (simp add: inOtherHomeRow_pegKey [OF col])
  finally show ?thesis by blast
qed

lemma path_coloured:
  assumes inv: "barrierInvariant b" and col: "c = R \<or> c = B"
  shows "getPeg b (asTuple p) = Some c \<Longrightarrow> chain (barriersOf b c) (p # ps)
           \<Longrightarrow> list_all (\<lambda>p. getPeg b (asTuple p) = Some c) (p # ps)"
proof (induction ps arbitrary: p)
  case Nil
  then show ?case by simp
next
  case (Cons q ps)
  then have "joinedBy (barriersOf b c) p q" by simp
  from joined_coloured [OF inv col this] Cons show ?case by simp
qed

text \<open>
  Claim C1. On every reachable board, \<^verbatim>\<open>gameWon\<close> for Red is true exactly when there
  is a non-empty sequence of pegs, each on a cell holding Red, the first with
  \<open>y = 1\<close>, the last with \<open>y = 24\<close>, consecutive ones joined by a barrier of Red's
  list; and for Black likewise with Black cells, Black's list, \<open>x = 1\<close> and
  \<open>x = 24\<close>. The traversal terminates on every board, so \<^verbatim>\<open>gameWon\<close> always
  returns.
\<close>

theorem gameWon_iff_path:
  "reachable b \<Longrightarrow>
     (gameWon b R \<longleftrightarrow> (\<exists>ps. winningPath b R ps))
     \<and> (gameWon b B \<longleftrightarrow> (\<exists>ps. winningPath b B ps))"
proof -
  assume r: "reachable b"
  then have inv: "barrierInvariant b" by (rule reachable_invariant)
  have grid: "\<forall>t c. getPeg b t = Some c \<longrightarrow> inGrid t"
    using reachable_inGrid [OF r] by blast
  have "gameWon b c \<longleftrightarrow> (\<exists>ps. winningPath b c ps)" if col: "c = R \<or> c = B" for c
  proof
    note gw = gameWon_reach [OF inv grid col]
    assume "gameWon b c"
    with gw obtain p q where pq: "getPeg b (asTuple p) = Some c" "homeCoord c p = 1"
      "(p, q) \<in> (pegStep b c)\<^sup>*" "homeCoord c q = 24"
      by blast
    from reaches_chain [OF pq(3)] obtain ps where
      ps: "ps \<noteq> []" "hd ps = p" "last ps = q" "chain (barriersOf b c) ps"
      by blast
    then obtain ps' where ps': "ps = p # ps'" by (cases ps) auto
    from path_coloured [OF inv col pq(1)] ps(4) ps'
    have "list_all (\<lambda>p. getPeg b (asTuple p) = Some c) ps" by simp
    with ps pq col have "winningPath b c ps"
      by (auto simp: winningPath_def homeCoord_def)
    then show "\<exists>ps. winningPath b c ps" ..
  next
    assume "\<exists>ps. winningPath b c ps"
    then obtain ps where w: "winningPath b c ps" ..
    then obtain p ps' where ps: "ps = p # ps'" by (cases ps) (auto simp: winningPath_def)
    from w ps have "chain (barriersOf b c) (p # ps')" by (simp add: winningPath_def)
    then have "(p, last (p # ps')) \<in> (pegStep b c)\<^sup>*" by (rule chain_reaches)
    moreover from w ps have "getPeg b (asTuple p) = Some c" by (simp add: winningPath_def)
    moreover from w ps col have "homeCoord c p = 1" "homeCoord c (last (p # ps')) = 24"
      by (auto simp: winningPath_def homeCoord_def)
    ultimately show "gameWon b c"
      using gameWon_reach [OF inv grid col] by blast
  qed
  from this [of R] this [of B] show ?thesis by simp
qed

subsection \<open>A board Red has won\<close>

lemma reachable_pegs: "reachable b \<Longrightarrow> reachable (foldl (\<lambda>b p. snd (placePeg b p R)) b ps)"
  by (induction ps arbitrary: b) (simp_all add: reachable.afterPlacePeg)

lemma reachable_barriers:
  "reachable b \<Longrightarrow> reachable (foldl (\<lambda>b e. snd (placeBarrier b (fst e) (snd e) R)) b es)"
  by (induction es arbitrary: b) (simp_all add: reachable.afterPlaceBarrier)

lemma reachable_wonBoard: "reachable wonBoard"
  unfolding wonBoard_def wonPegsBoard_def
  by (intro reachable_barriers reachable_pegs reachable.fresh)

lemma pegs_only:
  "redBarrierState (foldl (\<lambda>b p. snd (placePeg b p R)) b ps) = redBarrierState b"
  "blackBarrierState (foldl (\<lambda>b p. snd (placePeg b p R)) b ps) = blackBarrierState b"
  by (induction ps arbitrary: b) (simp_all add: placePeg_snd)

lemma wonPegsBoard_simps [simp]:
  "getPeg wonPegsBoard t
     = (if t \<in> set (map asTuple wonPegs) then Some R else getPeg newBoard t)"
  "redBarrierState wonPegsBoard = []"
  "blackBarrierState wonPegsBoard = []"
  unfolding wonPegsBoard_def pegs_only
  by (simp_all add: wonPegs_def placePeg_snd placePeg_fst forbiddenLine_def inGrid_def)

lemma blocks_below:
  assumes "peg_y p \<noteq> peg_y q"
    and "max (peg_y (fst e)) (peg_y (snd e)) \<le> min (peg_y p) (peg_y q)"
  shows "\<not> blocks p q e"
proof (cases "slope p q = slope (fst e) (snd e)")
  case True
  with assms show ?thesis by (auto simp: blocks_def Let_def)
next
  case False
  have "\<not> (between v (of_int (peg_y p)) (of_int (peg_y q))
            \<and> between v (of_int (peg_y (fst e))) (of_int (peg_y (snd e))))" for v :: rat
  proof
    assume both: "between v (of_int (peg_y p)) (of_int (peg_y q))
            \<and> between v (of_int (peg_y (fst e))) (of_int (peg_y (snd e)))"
    then have "of_int (min (peg_y p) (peg_y q)) < v"
      by (auto simp: between_def min_def)
    moreover from both have "v < of_int (max (peg_y (fst e)) (peg_y (snd e)))"
      by (auto simp: between_def max_def)
    ultimately have "(of_int (min (peg_y p) (peg_y q)) :: rat)
        < of_int (max (peg_y (fst e)) (peg_y (snd e)))"
      by (rule less_trans)
    then have "min (peg_y p) (peg_y q) < max (peg_y (fst e)) (peg_y (snd e))"
      by (simp only: of_int_less_iff)
    with assms(2) show False by linarith
  qed
  with False show ?thesis by (auto simp: blocks_def Let_def)
qed

lemma place_above:
  assumes "getPeg b (asTuple p) = Some R" "getPeg b (asTuple q) = Some R"
    and "(peg_y q - peg_y p)\<^sup>2 + (peg_x q - peg_x p)\<^sup>2 = 5"
    and "peg_y p \<noteq> peg_y q" "lt p q"
    and "list_all (\<lambda>e. max (peg_y (fst e)) (peg_y (snd e)) \<le> min (peg_y p) (peg_y q))
           (redBarrierState b @ blackBarrierState b)"
  shows "snd (placeBarrier b p q R) = b\<lparr>redBarrierState := redBarrierState b @ [(p, q)]\<rparr>"
proof -
  have "\<not> blockedBy p q (redBarrierState b @ blackBarrierState b)"
    unfolding blockedBy_iff using assms(4,6) blocks_below [of p q]
    by (auto simp: list_all_iff)
  with assms show ?thesis by (simp add: placeBarrier_snd placeBarrier_fst)
qed

lemma wonBoard_state:
  "redBarrierState wonBoard = zip wonPegs (tl wonPegs)
   \<and> blackBarrierState wonBoard = []
   \<and> (\<forall>t. getPeg wonBoard t = getPeg wonPegsBoard t)"
  unfolding wonBoard_def
  by (simp add: wonPegs_def place_above lt_def)

lemma wonBoard_simps [simp]:
  "redBarrierState wonBoard = zip wonPegs (tl wonPegs)"
  "blackBarrierState wonBoard = []"
  "getPeg wonBoard t = getPeg wonPegsBoard t"
  using wonBoard_state by blast+

lemma wonBoard_path: "winningPath wonBoard R wonPegs"
  by (simp add: winningPath_def barriersOf_def) (simp add: wonPegs_def joinedBy_def)

theorem gameWon_iff_path_witness:
  "reachable wonBoard
   \<and> winningPath wonBoard R wonPegs
   \<and> gameWon wonBoard R
   \<and> reachable boardWithBarrier
   \<and> \<not> gameWon boardWithBarrier R
   \<and> \<not> (\<exists>ps. winningPath boardWithBarrier R ps)
   \<and> \<not> gameWon boardWithBarrier B
   \<and> \<not> (\<exists>ps. winningPath boardWithBarrier B ps)"
proof -
  have "firstHomeRow boardWithBarrier R = []" "firstHomeRow boardWithBarrier B = []"
    by (simp_all add: firstHomeRow_def)
  then have lost: "\<not> gameWon boardWithBarrier R" "\<not> gameWon boardWithBarrier B"
    by (simp_all add: gameWon_def connectLoop.simps)
  have "\<exists>ps. winningPath wonBoard R ps"
    using wonBoard_path by blast
  then show ?thesis
    using gameWon_iff_path [of boardWithBarrier] gameWon_iff_path [of wonBoard]
      reachable_examples(2) reachable_wonBoard wonBoard_path lost
    by simp
qed

end
